theory Spec2Isabelle
  imports Main "HOL-Library.AList"
begin

chapter \<open>The model\<close>

section \<open>LRU replacer (buffer/lru\_replacer.cpp)\<close>

text \<open>
  The replacer keeps a doubly linked list (the member lst\_, here \<open>lru_lst\<close>; its front
  is the most recently inserted item) and a hash map (the member map\_, here \<open>lru_map\<close>)
  from each item to the list node that holds it.  The list is modelled as a HOL list.  Of
  the map only the key set is kept: the iterator stored under a key is the node of that
  key, so erasing the node stored under an item removes the occurrence of the item from
  the list.
\<close>

record 'a LRUReplacer =
  lru_lst :: "'a list"
  lru_map :: "'a set"

definition LRU_new :: "'a LRUReplacer" where
  "LRU_new = \<lparr>lru_lst = [], lru_map = {}\<rparr>"

definition LRU_Insert :: "'a \<Rightarrow> 'a LRUReplacer \<Rightarrow> 'a LRUReplacer" where
  "LRU_Insert v s =
     (let l = (if v \<in> lru_map s then remove1 v (lru_lst s) else lru_lst s)
      in \<lparr>lru_lst = v # l, lru_map = insert v (lru_map s)\<rparr>)"

text \<open>
  \<open>Victim\<close> has an out-parameter; the model takes its value before the call and returns
  the return value, the value of the out-parameter after the call, and the new state.
\<close>

definition LRU_Victim :: "'a \<Rightarrow> 'a LRUReplacer \<Rightarrow> bool \<times> 'a \<times> 'a LRUReplacer" where
  "LRU_Victim val s =
     (if lru_lst s = [] then (False, val, s)
      else let v = last (lru_lst s)
           in (True, v, \<lparr>lru_lst = butlast (lru_lst s), lru_map = lru_map s - {v}\<rparr>))"

definition LRU_Erase :: "'a \<Rightarrow> 'a LRUReplacer \<Rightarrow> bool \<times> 'a LRUReplacer" where
  "LRU_Erase v s =
     (if v \<notin> lru_map s then (False, s)
      else (True, \<lparr>lru_lst = remove1 v (lru_lst s), lru_map = lru_map s - {v}\<rparr>))"

definition LRU_Size :: "'a LRUReplacer \<Rightarrow> nat" where
  "LRU_Size s = card (lru_map s)"

text \<open>
  Histories of calls, newest call first (\<open>OpVictim val\<close> is a call of Victim whose
  out-parameter holds \<open>val\<close> before the call), and the replacer a history leaves behind.
  \<open>age h x\<close> counts the calls made since the most recent \<open>Insert x\<close>.
\<close>

datatype 'a lru_op = OpInsert 'a | OpVictim 'a | OpErase 'a

fun lru_apply :: "'a lru_op \<Rightarrow> 'a LRUReplacer \<Rightarrow> 'a LRUReplacer" where
  "lru_apply (OpInsert v) s = LRU_Insert v s"
| "lru_apply (OpVictim val) s = snd (snd (LRU_Victim val s))"
| "lru_apply (OpErase v) s = snd (LRU_Erase v s)"

fun lru_after :: "'a lru_op list \<Rightarrow> 'a LRUReplacer" where
  "lru_after [] = LRU_new"
| "lru_after (c # h) = lru_apply c (lru_after h)"

fun age :: "'a lru_op list \<Rightarrow> 'a \<Rightarrow> nat" where
  "age [] x = 0"
| "age (c # h) x = (if c = OpInsert x then 0 else Suc (age h x))"

definition lru_inv :: "'a lru_op list \<Rightarrow> 'a LRUReplacer \<Rightarrow> bool" where
  "lru_inv h s \<longleftrightarrow>
     set (lru_lst s) = lru_map s \<and> sorted_wrt (\<lambda>x y. age h x < age h y) (lru_lst s)
     \<and> (\<forall>x \<in> set (lru_lst s). age h x < length h)"

section \<open>Extendible hash table (hash/extendible\_hash.cpp)\<close>

unbundle bit_operations_syntax

text \<open>
  The directory is a vector of shared pointers, and several slots may point to the same
  bucket.  The model keeps the buckets in a store indexed by addresses; \<open>next_addr\<close> is
  the next address that an allocation returns.  A bucket's map is an association list,
  its size the length of the list.  The hash function (\<open>std::hash\<close>) is the parameter
  \<open>H\<close>; its values are read as natural numbers.
\<close>

record ('k, 'v) Bucket =
  local_depth :: nat
  bucket_map :: "('k \<times> 'v) list"

record ('k, 'v) ExtendibleHash =
  global_depth :: nat
  size_limit :: nat
  bucket_directory :: "nat list"
  heap :: "nat \<Rightarrow> ('k, 'v) Bucket option"
  next_addr :: nat

text \<open>
  \<open>OutOfRange\<close> is the exception of \<open>vector::at\<close>.  The source computes \<open>1 << depth\<close>
  on 32-bit signed integers; where the shift or the subtraction that follows leaves the
  range of \<open>int\<close> the source has no defined result, and the model gives \<open>ShiftOverflow\<close>.
  \<open>Dangling\<close> is an address without a bucket, which shared pointers rule out.
\<close>

datatype eh_error = OutOfRange | ShiftOverflow | Dangling

definition EH_new :: "nat \<Rightarrow> ('k, 'v) ExtendibleHash" where
  "EH_new sz =
     \<lparr>global_depth = 0, size_limit = sz, bucket_directory = [0],
      heap = (\<lambda>a. None)(0 := Some \<lparr>local_depth = 0, bucket_map = []\<rparr>), next_addr = 1\<rparr>"

definition GetBucketIndex :: "('k, 'v) ExtendibleHash \<Rightarrow> nat \<Rightarrow> eh_error + nat" where
  "GetBucketIndex s hash_value =
     (if global_depth s \<le> 30 then Inr (hash_value AND (2 ^ global_depth s - 1))
      else Inl ShiftOverflow)"

definition GetBucket :: "('k \<Rightarrow> nat) \<Rightarrow> ('k, 'v) ExtendibleHash \<Rightarrow> 'k \<Rightarrow> eh_error + nat" where
  "GetBucket H s key =
     (case GetBucketIndex s (H key) of
        Inl e \<Rightarrow> Inl e
      | Inr i \<Rightarrow> if i < length (bucket_directory s) then Inr (bucket_directory s ! i)
                 else Inl OutOfRange)"

text \<open>\<open>Find\<close> returns the value found, or \<open>None\<close> where the source returns false.\<close>

definition Find :: "('k \<Rightarrow> nat) \<Rightarrow> ('k, 'v) ExtendibleHash \<Rightarrow> 'k \<Rightarrow> eh_error + 'v option" where
  "Find H s key =
     (case GetBucket H s key of
        Inl e \<Rightarrow> Inl e
      | Inr a \<Rightarrow> (case heap s a of
                   None \<Rightarrow> Inl Dangling
                 | Some b \<Rightarrow> Inr (map_of (bucket_map b) key)))"

definition Remove ::
  "('k \<Rightarrow> nat) \<Rightarrow> ('k, 'v) ExtendibleHash \<Rightarrow> 'k \<Rightarrow> eh_error + bool \<times> ('k, 'v) ExtendibleHash" where
  "Remove H s key =
     (case GetBucket H s key of
        Inl e \<Rightarrow> Inl e
      | Inr a \<Rightarrow> (case heap s a of
                   None \<Rightarrow> Inl Dangling
                 | Some b \<Rightarrow>
                     if map_of (bucket_map b) key = None then Inr (False, s)
                     else Inr (True,
                       s\<lparr>heap := (heap s)(a := Some (b\<lparr>bucket_map := AList.delete key (bucket_map b)\<rparr>))\<rparr>)))"

text \<open>
  One round of the loop of \<open>Insert\<close> on the full bucket at address \<open>bucket\<close>: double
  the directory if the bucket is as deep as the directory, allocate the two new buckets,
  distribute the entries by the bit \<open>mask\<close> of their hashes, and retarget every slot that
  points to the old bucket by the bit \<open>mask\<close> of its index.  The old bucket is then
  unreferenced and released.
\<close>

definition double_directory :: "('k, 'v) ExtendibleHash \<Rightarrow> ('k, 'v) ExtendibleHash" where
  "double_directory s =
     s\<lparr>bucket_directory := bucket_directory s @ bucket_directory s,
       global_depth := global_depth s + 1\<rparr>"

definition retarget :: "nat list \<Rightarrow> nat \<Rightarrow> nat \<Rightarrow> nat \<Rightarrow> nat \<Rightarrow> nat list" where
  "retarget dir bucket bit_mask left_bucket right_bucket =
     map (\<lambda>i. if dir ! i = bucket
               then (if bit_mask AND i \<noteq> 0 then right_bucket else left_bucket)
               else dir ! i) [0..<length dir]"

definition split_bucket ::
  "('k \<Rightarrow> nat) \<Rightarrow> ('k, 'v) ExtendibleHash \<Rightarrow> nat \<Rightarrow> ('k, 'v) Bucket \<Rightarrow> ('k, 'v) ExtendibleHash" where
  "split_bucket H s bucket b =
     (let s1 = (if local_depth b = global_depth s then double_directory s else s);
          bit_mask = 2 ^ local_depth b;
          left_bucket = next_addr s1;
          right_bucket = next_addr s1 + 1;
          left = \<lparr>local_depth = local_depth b + 1,
                  bucket_map = filter (\<lambda>item. \<not> bit_mask AND H (fst item) \<noteq> 0) (bucket_map b)\<rparr>;
          right = \<lparr>local_depth = local_depth b + 1,
                   bucket_map = filter (\<lambda>item. bit_mask AND H (fst item) \<noteq> 0) (bucket_map b)\<rparr>
      in s1\<lparr>bucket_directory := retarget (bucket_directory s1) bucket bit_mask left_bucket right_bucket,
            heap := (heap s1)(bucket := None, left_bucket := Some left, right_bucket := Some right),
            next_addr := next_addr s1 + 2\<rparr>)"

text \<open>
  The loop of \<open>Insert\<close>.  It need not end (a size limit of 0, or more keys with one hash
  than a bucket holds), so it is a partial function: \<open>None\<close> is a run that never returns.
\<close>

partial_function (option) Insert_loop ::
  "('k \<Rightarrow> nat) \<Rightarrow> 'k \<Rightarrow> ('k, 'v) ExtendibleHash \<Rightarrow> nat
     \<Rightarrow> (eh_error + ('k, 'v) ExtendibleHash \<times> nat) option" where
  "Insert_loop H key s bucket =
     (case heap s bucket of
        None \<Rightarrow> Some (Inl Dangling)
      | Some b \<Rightarrow>
          if length (bucket_map b) = size_limit s
          then (if local_depth b \<le> 30
                then (case GetBucket H (split_bucket H s bucket b) key of
                        Inl e \<Rightarrow> Some (Inl e)
                      | Inr bucket' \<Rightarrow> Insert_loop H key (split_bucket H s bucket b) bucket')
                else Some (Inl ShiftOverflow))
          else Some (Inr (s, bucket)))"

definition Insert ::
  "('k \<Rightarrow> nat) \<Rightarrow> 'k \<Rightarrow> 'v \<Rightarrow> ('k, 'v) ExtendibleHash
     \<Rightarrow> (eh_error + ('k, 'v) ExtendibleHash) option" where
  "Insert H key val s =
     (case GetBucket H s key of
        Inl e \<Rightarrow> Some (Inl e)
      | Inr bucket \<Rightarrow>
          (case Insert_loop H key s bucket of
             None \<Rightarrow> None
           | Some (Inl e) \<Rightarrow> Some (Inl e)
           | Some (Inr (s', a)) \<Rightarrow>
               (case heap s' a of
                  None \<Rightarrow> Some (Inl Dangling)
                | Some b \<Rightarrow>
                    Some (Inr (s'\<lparr>heap := (heap s')(a := Some
                      (b\<lparr>bucket_map := AList.update key val (bucket_map b)\<rparr>))\<rparr>)))))"

text \<open>
  The states that the constructor, \<open>Insert\<close> and \<open>Remove\<close> produce when they return:
  the global depth is in the range where the index mask is defined, the directory has
  \<open>2 ^ global_depth\<close> slots, every slot points to a bucket in the store below the
  allocation mark, no bucket is deeper than the directory, and no bucket holds a key twice.
\<close>

definition eh_inv :: "('k, 'v) ExtendibleHash \<Rightarrow> bool" where
  "eh_inv s \<longleftrightarrow>
     global_depth s \<le> 30 \<and>
     length (bucket_directory s) = 2 ^ global_depth s \<and>
     (\<forall>a \<in> set (bucket_directory s). a < next_addr s \<and>
        (\<exists>b. heap s a = Some b \<and> local_depth b \<le> global_depth s
              \<and> distinct (map fst (bucket_map b))))"

text \<open>What a run of the loop of \<open>Insert\<close> that returns has achieved.\<close>

definition loop_post ::
  "('k \<Rightarrow> nat) \<Rightarrow> 'k \<Rightarrow> ('k, 'v) ExtendibleHash \<Rightarrow> nat
     \<Rightarrow> eh_error + ('k, 'v) ExtendibleHash \<times> nat \<Rightarrow> bool" where
  "loop_post H key s a y \<longleftrightarrow>
     (eh_inv s \<longrightarrow> GetBucket H s key = Inr a \<longrightarrow>
       (case y of Inl e \<Rightarrow> True
        | Inr (s', a') \<Rightarrow> eh_inv s' \<and> GetBucket H s' key = Inr a'
           \<and> size_limit s' = size_limit s
           \<and> (\<exists>b'. heap s' a' = Some b' \<and> length (bucket_map b') \<noteq> size_limit s')
           \<and> (\<forall>k. Find H s' k = Find H s k)))"

text \<open>
  A table with size limit 2 whose only bucket is full: the keys 0 and 2 hash to themselves,
  as \<open>std::hash\<close> does on integers.
\<close>

definition ex_hash :: "(nat, nat) ExtendibleHash" where
  "ex_hash =
     \<lparr>global_depth = 0, size_limit = 2, bucket_directory = [0],
      heap = (\<lambda>a. None)(0 := Some \<lparr>local_depth = 0, bucket_map = [(0, 10), (2, 12)]\<rparr>),
      next_addr = 1\<rparr>"

section \<open>Lock manager (concurrency/lock\_manager.cpp, lock\_manager.h)\<close>

datatype TransactionState = GROWING | SHRINKING | COMMITTED | ABORTED

datatype WaitState = SHARED | EXCLUSIVE

type_synonym txn_id_t = int

text \<open>
  Modelled from the spec: the transaction class is not among the sources.  A transaction
  has an id, a state and the sets of record ids it holds shared and exclusive locks on
  (Section 3 of the spec).
\<close>

record 'r Transaction =
  txn_id :: txn_id_t
  txn_state :: TransactionState
  shared_lock_set :: "'r set"
  exclusive_lock_set :: "'r set"

text \<open>
  A wait item is a transaction id and the requested mode; its promise is the one-shot
  signal the waiter blocks on.  A wait list has the mode of the granted locks, the set of
  granted transactions and the queue of waiters.
\<close>

record WaitItem =
  tid :: txn_id_t
  wi_state :: WaitState

record WaitList =
  wl_state :: WaitState
  wl_granted :: "txn_id_t set"
  wl_lst :: "WaitItem list"

definition WaitList_new :: "txn_id_t \<Rightarrow> WaitState \<Rightarrow> WaitList" where
  "WaitList_new t st = \<lparr>wl_state = st, wl_granted = {t}, wl_lst = []\<rparr>"

record 'r LockManager =
  strict_2PL :: bool
  lock_table :: "'r \<Rightarrow> WaitList option"

text \<open>
  The routines run in one thread; what the other threads do shows in two inputs.
  \<open>future_status\<close> is the result of waiting on the promise for \<open>WAIT_TIMEOUT\<close>:
  \<open>ready\<close> when an \<open>Unlock\<close> of another thread has granted the lock and set the promise,
  \<open>timeout\<close> otherwise.  Each routine returns its return value, the transaction and the
  lock table as the routine itself leaves them.
\<close>

datatype future_status = ready | timeout

definition enqueue :: "txn_id_t \<Rightarrow> WaitState \<Rightarrow> WaitList \<Rightarrow> WaitList" where
  "enqueue t st ptr = ptr\<lparr>wl_lst := wl_lst ptr @ [\<lparr>tid = t, wi_state = st\<rparr>]\<rparr>"

definition LockShared ::
  "future_status \<Rightarrow> 'r Transaction \<Rightarrow> 'r \<Rightarrow> 'r LockManager
     \<Rightarrow> bool \<times> 'r Transaction \<times> 'r LockManager" where
  "LockShared status txn rid lm =
     (if txn_state txn = SHRINKING then (False, txn\<lparr>txn_state := ABORTED\<rparr>, lm)
      else case lock_table lm rid of
        None \<Rightarrow>
          (True, txn\<lparr>shared_lock_set := insert rid (shared_lock_set txn)\<rparr>,
           lm\<lparr>lock_table := (lock_table lm)(rid := Some (WaitList_new (txn_id txn) SHARED))\<rparr>)
      | Some ptr \<Rightarrow>
          if wl_state ptr = EXCLUSIVE
          then (let lm' = lm\<lparr>lock_table := (lock_table lm)(rid := Some (enqueue (txn_id txn) SHARED ptr))\<rparr>
                in if status = timeout then (False, txn\<lparr>txn_state := ABORTED\<rparr>, lm')
                   else (True, txn\<lparr>shared_lock_set := insert rid (shared_lock_set txn)\<rparr>, lm'))
          else (True, txn\<lparr>shared_lock_set := insert rid (shared_lock_set txn)\<rparr>,
                lm\<lparr>lock_table := (lock_table lm)(rid := Some
                  (ptr\<lparr>wl_granted := insert (txn_id txn) (wl_granted ptr)\<rparr>))\<rparr>))"

definition LockExclusive ::
  "future_status \<Rightarrow> 'r Transaction \<Rightarrow> 'r \<Rightarrow> 'r LockManager
     \<Rightarrow> bool \<times> 'r Transaction \<times> 'r LockManager" where
  "LockExclusive status txn rid lm =
     (if txn_state txn = SHRINKING then (False, txn\<lparr>txn_state := ABORTED\<rparr>, lm)
      else case lock_table lm rid of
        None \<Rightarrow>
          (True, txn\<lparr>exclusive_lock_set := insert rid (exclusive_lock_set txn)\<rparr>,
           lm\<lparr>lock_table := (lock_table lm)(rid := Some (WaitList_new (txn_id txn) EXCLUSIVE))\<rparr>)
      | Some ptr \<Rightarrow>
          (let lm' = lm\<lparr>lock_table := (lock_table lm)(rid := Some (enqueue (txn_id txn) EXCLUSIVE ptr))\<rparr>
           in if status = timeout then (False, txn\<lparr>txn_state := ABORTED\<rparr>, lm')
              else (True, txn\<lparr>exclusive_lock_set := insert rid (exclusive_lock_set txn)\<rparr>, lm')))"

text \<open>
  \<open>LockUpgrade\<close> calls \<open>LockExclusive\<close> while its own lock on the table mutex
  \<open>latch_\<close> is still held.  \<open>LockExclusive_held\<close> is \<open>LockExclusive\<close> as it runs for a
  thread that owns the mutex: the two-phase test comes first and returns as usual; past
  it the routine locks the mutex again, which is not recursive, and the thread blocks for
  ever before it enqueues or waits.  \<open>None\<close> is a call that never returns.
\<close>

definition LockExclusive_held ::
  "future_status \<Rightarrow> 'r Transaction \<Rightarrow> 'r \<Rightarrow> 'r LockManager
     \<Rightarrow> (bool \<times> 'r Transaction \<times> 'r LockManager) option" where
  "LockExclusive_held status txn rid lm =
     (if txn_state txn = SHRINKING then Some (False, txn\<lparr>txn_state := ABORTED\<rparr>, lm)
      else None)"

definition LockUpgrade ::
  "future_status \<Rightarrow> 'r Transaction \<Rightarrow> 'r \<Rightarrow> 'r LockManager
     \<Rightarrow> (bool \<times> 'r Transaction \<times> 'r LockManager) option" where
  "LockUpgrade status txn rid lm =
     (if txn_state txn = SHRINKING then Some (False, txn\<lparr>txn_state := ABORTED\<rparr>, lm)
      else case lock_table lm rid of
        None \<Rightarrow> Some (False, txn, lm)
      | Some ptr \<Rightarrow>
          if txn_id txn \<notin> wl_granted ptr \<or> wl_state ptr \<noteq> SHARED then Some (False, txn, lm)
          else (let lm1 = lm\<lparr>lock_table := (lock_table lm)(rid := Some
                            (ptr\<lparr>wl_granted := wl_granted ptr - {txn_id txn}\<rparr>))\<rparr>;
                    txn1 = txn\<lparr>shared_lock_set := shared_lock_set txn - {rid}\<rparr>
                in (case LockExclusive_held status txn1 rid lm1 of
                      None \<Rightarrow> None
                    | Some (ret, txn2, lm2) \<Rightarrow> Some (True, txn2, lm2))))"

text \<open>
  Transaction 1 (\<open>ex_holder\<close>) holds the only shared lock on record 7.  In \<open>ex_lm_queue\<close> transaction 2
  already waits for the exclusive lock on that record.
\<close>

definition ex_holder :: "nat Transaction" where
  "ex_holder = \<lparr>txn_id = 1, txn_state = GROWING, shared_lock_set = {7}, exclusive_lock_set = {}\<rparr>"

definition ex_txn :: "txn_id_t \<Rightarrow> nat Transaction" where
  "ex_txn t = \<lparr>txn_id = t, txn_state = GROWING, shared_lock_set = {}, exclusive_lock_set = {}\<rparr>"

definition ex_lm :: "nat LockManager" where
  "ex_lm = \<lparr>strict_2PL = False,
            lock_table = (\<lambda>r. None)(7 := Some \<lparr>wl_state = SHARED, wl_granted = {1}, wl_lst = []\<rparr>)\<rparr>"

definition ex_lm_queue :: "nat LockManager" where
  "ex_lm_queue = \<lparr>strict_2PL = False,
     lock_table = (\<lambda>r. None)(7 := Some \<lparr>wl_state = SHARED, wl_granted = {1},
        wl_lst = [\<lparr>tid = 2, wi_state = EXCLUSIVE\<rparr>]\<rparr>)\<rparr>"

section \<open>B+ tree pages (page/b\_plus\_tree\_internal\_page.cpp, b\_plus\_tree\_leaf\_page.h)\<close>

text \<open>
  Page ids are 32-bit signed integers in the source; no arithmetic is done on them except
  by the page allocator, so they are modelled as integers.
\<close>

type_synonym page_id_t = int

definition INVALID_PAGE_ID :: page_id_t where
  "INVALID_PAGE_ID = - 1"

datatype IndexPageType = INVALID_INDEX_PAGE | LEAF_PAGE | INTERNAL_PAGE

text \<open>
  A page is a block of bytes that the source reads through a leaf view or an internal view.
  The record holds the common header, the two link fields of the leaf view, and the live
  entries \<open>array[0..size)\<close> of either view as a list, so that \<open>GetSize\<close> is the length
  of the list.  Slots beyond \<open>size\<close> are not represented.  In an internal page the key of
  entry 0 is the unused sentinel.
\<close>

record ('k, 'v) BPlusTreePage =
  page_type :: IndexPageType
  max_size :: int
  parent_page_id :: page_id_t
  page_id :: page_id_t
  next_page_id :: page_id_t
  prev_page_id :: page_id_t
  leaf_array :: "('k \<times> 'v) list"
  internal_array :: "('k \<times> page_id_t) list"

datatype bpt_error = NullPage | AssertFail | DeadSlot

text \<open>
  Modelled from the spec: the methods of the common page class (b\_plus\_tree\_page.cpp) are
  not among the sources.  \<open>IsLeafPage\<close> tests the page-type tag and \<open>IsRootPage\<close> tests
  for the parent id INVALID.  The minimum size of a page other than the root is
  \<open>\<lceil>max_size / 2\<rceil>\<close>, for leaves and for internal pages alike.  The root is exempt from
  that bound (Section 3 of the spec): a root leaf underflows only when it is empty, which
  is when the tree is emptied, and an internal root only when a single child is left,
  which is when that child is promoted (Section 4.4.3 of the spec, and the cases named in
  the comment of \<open>AdjustRoot\<close>).  So the minimum size of a root leaf is 1 and that of an
  internal root is 2.
\<close>

definition IsLeafPage :: "('k, 'v) BPlusTreePage \<Rightarrow> bool" where
  "IsLeafPage p \<longleftrightarrow> page_type p = LEAF_PAGE"

definition IsRootPage :: "('k, 'v) BPlusTreePage \<Rightarrow> bool" where
  "IsRootPage p \<longleftrightarrow> parent_page_id p = INVALID_PAGE_ID"

definition GetSize :: "('k, 'v) BPlusTreePage \<Rightarrow> nat" where
  "GetSize p = (if IsLeafPage p then length (leaf_array p) else length (internal_array p))"

definition GetMinSize :: "('k, 'v) BPlusTreePage \<Rightarrow> int" where
  "GetMinSize p =
     (if IsRootPage p then (if IsLeafPage p then 1 else 2)
      else (max_size p + 1) div 2)"

text \<open>
  Modelled from the spec: the key comparator (GenericComparator) is not among the sources;
  it returns one of \<open>-1, 0, 1\<close> (Section 9 of the spec).  Keys are taken from a linear order.
\<close>

definition comparator :: "'k::linorder \<Rightarrow> 'k \<Rightarrow> int" where
  "comparator a b = (if a < b then - 1 else if b < a then 1 else 0)"

subsection \<open>Internal pages\<close>

text \<open>
  \<open>Init\<close> computes the maximum size in \<open>size_t\<close>, where subtracting 1 from 0 wraps
  round to \<open>2 ^ 64 - 1\<close>, and stores it in the \<open>int\<close> field, which keeps the low 32 bits
  read as a signed number.
\<close>

definition size_t_to_int :: "nat \<Rightarrow> int" where
  "size_t_to_int n = (int n + 2 ^ 31) mod 2 ^ 32 - 2 ^ 31"

definition Internal_Init ::
  "nat \<Rightarrow> page_id_t \<Rightarrow> page_id_t \<Rightarrow> ('k, 'v) BPlusTreePage \<Rightarrow> ('k, 'v) BPlusTreePage" where
  \<comment> \<open>\<open>slots\<close> is \<open>(PAGE_SIZE - sizeof(BPlusTreeInternalPage)) / sizeof(MappingType)\<close>.\<close>
  "Internal_Init slots pid parent_id p =
     (let sz = (if slots = 0 then 2 ^ 64 - 1 else slots - 1)
      in p\<lparr>page_type := INTERNAL_PAGE, page_id := pid, parent_page_id := parent_id,
           leaf_array := [], internal_array := [],
           max_size := size_t_to_int (sz div 2 * 2)\<rparr>)"

definition Internal_KeyAt :: "('k, 'v) BPlusTreePage \<Rightarrow> int \<Rightarrow> bpt_error + 'k" where
  "Internal_KeyAt p index =
     (if 0 \<le> index \<and> index < int (length (internal_array p))
      then Inr (fst (internal_array p ! nat index)) else Inl AssertFail)"

fun ValueIndex_from :: "('k \<times> page_id_t) list \<Rightarrow> page_id_t \<Rightarrow> nat \<Rightarrow> nat option" where
  "ValueIndex_from [] v i = None"
| "ValueIndex_from (e # es) v i = (if snd e = v then Some i else ValueIndex_from es v (Suc i))"

definition Internal_ValueIndex :: "('k, 'v) BPlusTreePage \<Rightarrow> page_id_t \<Rightarrow> nat option" where
  \<comment> \<open>\<open>None\<close> is the source's \<open>-1\<close>.\<close>
  "Internal_ValueIndex p v = ValueIndex_from (internal_array p) v 0"

text \<open>
  The binary search of \<open>Lookup\<close>.  \<open>start\<close> is at least 1 and at most \<open>end\<close> throughout,
  so natural numbers lose nothing.
\<close>

function Lookup_loop :: "('k::linorder \<times> page_id_t) list \<Rightarrow> 'k \<Rightarrow> nat \<Rightarrow> nat \<Rightarrow> nat" where
  "Lookup_loop arr key start end_idx =
     (if start < end_idx
      then (let mid = start + (end_idx - start) div 2
            in if comparator (fst (arr ! mid)) key = - 1
               then Lookup_loop arr key (mid + 1) end_idx
               else Lookup_loop arr key start mid)
      else start)"
  by pat_completeness auto
termination
  by (relation "measure (\<lambda>(arr, key, start, end_idx). end_idx - start)") auto

declare Lookup_loop.simps [simp del]

definition Internal_Lookup :: "('k::linorder, 'v) BPlusTreePage \<Rightarrow> 'k \<Rightarrow> bpt_error + page_id_t" where
  \<comment> \<open>With size 0 the source returns the child pointer of the dead slot 0.\<close>
  "Internal_Lookup p key =
     (let arr = internal_array p;
          start = Lookup_loop arr key 1 (length arr)
      in if arr = [] then Inl DeadSlot else Inr (snd (arr ! (start - 1))))"

definition Internal_PopulateNewRoot ::
  "'k \<Rightarrow> page_id_t \<Rightarrow> 'k \<Rightarrow> page_id_t \<Rightarrow> ('k, 'v) BPlusTreePage \<Rightarrow> ('k, 'v) BPlusTreePage" where
  \<comment> \<open>Called on a fresh page of size 0; \<open>blank\<close> is the key that the zeroed slot 0 holds.\<close>
  "Internal_PopulateNewRoot blank old_value new_key new_value p =
     p\<lparr>internal_array := [(blank, old_value), (new_key, new_value)]\<rparr>"

definition Internal_InsertNodeAfter ::
  "page_id_t \<Rightarrow> 'k \<Rightarrow> page_id_t \<Rightarrow> ('k, 'v) BPlusTreePage \<Rightarrow> bpt_error + ('k, 'v) BPlusTreePage" where
  "Internal_InsertNodeAfter old_value new_key new_value p =
     (if int (length (internal_array p)) \<le> max_size p
      then (case Internal_ValueIndex p old_value of
              None \<Rightarrow> Inl AssertFail
            | Some ret \<Rightarrow>
                Inr (p\<lparr>internal_array :=
                         take (ret + 1) (internal_array p) @ [(new_key, new_value)]
                         @ drop (ret + 1) (internal_array p)\<rparr>))
      else Inl AssertFail)"

text \<open>The separators of an internal page, the keys at indices \<open>[1..size)\<close>, strictly increase.\<close>

definition seps_increasing :: "('k::linorder \<times> page_id_t) list \<Rightarrow> bool" where
  "seps_increasing arr \<longleftrightarrow> sorted_wrt (<) (map fst (tl arr))"

text \<open>An internal page with separators 5 and 9 and children 10, 11, 12.\<close>

definition ex_internal :: "(nat, unit) BPlusTreePage" where
  "ex_internal =
     \<lparr>page_type = INTERNAL_PAGE, max_size = 4, parent_page_id = - 1, page_id = 3,
      next_page_id = 0, prev_page_id = 0, leaf_array = [],
      internal_array = [(0, 10), (5, 11), (9, 12)]\<rparr>"

subsection \<open>Leaf pages\<close>

text \<open>
  Modelled from the spec: b\_plus\_tree\_leaf\_page.cpp is not among the sources, only the
  header that declares its methods.  By Sections 3 and 4.4 of the spec the entries of a
  leaf are sorted ascending by key, \<open>Insert\<close> puts the pair at its place in that order and
  does nothing when the key is already there, \<open>Lookup\<close> finds the value stored under a
  key, and a split moves the second half of the entries to the new leaf and links it in
  behind the old one.
\<close>

definition Leaf_Init ::
  "int \<Rightarrow> page_id_t \<Rightarrow> page_id_t \<Rightarrow> ('k, 'v) BPlusTreePage \<Rightarrow> ('k, 'v) BPlusTreePage" where
  "Leaf_Init leaf_max pid parent_id p =
     p\<lparr>page_type := LEAF_PAGE, page_id := pid, parent_page_id := parent_id,
       next_page_id := INVALID_PAGE_ID, prev_page_id := INVALID_PAGE_ID,
       leaf_array := [], internal_array := [], max_size := leaf_max\<rparr>"

definition Leaf_KeyAt :: "('k, 'v) BPlusTreePage \<Rightarrow> int \<Rightarrow> bpt_error + 'k" where
  "Leaf_KeyAt p index =
     (if 0 \<le> index \<and> index < int (length (leaf_array p))
      then Inr (fst (leaf_array p ! nat index)) else Inl AssertFail)"

fun insert_entry :: "'k::linorder \<Rightarrow> 'v \<Rightarrow> ('k \<times> 'v) list \<Rightarrow> ('k \<times> 'v) list" where
  "insert_entry k v [] = [(k, v)]"
| "insert_entry k v (e # es) =
     (if fst e = k then e # es
      else if k < fst e then (k, v) # e # es
      else e # insert_entry k v es)"

definition Leaf_Insert :: "'k::linorder \<Rightarrow> 'v \<Rightarrow> ('k, 'v) BPlusTreePage \<Rightarrow> ('k, 'v) BPlusTreePage" where
  \<comment> \<open>The source returns the size after the insertion, which is \<open>GetSize\<close> of the result.\<close>
  "Leaf_Insert key val p = p\<lparr>leaf_array := insert_entry key val (leaf_array p)\<rparr>"

definition Leaf_Lookup :: "('k, 'v) BPlusTreePage \<Rightarrow> 'k \<Rightarrow> 'v option" where
  \<comment> \<open>\<open>None\<close> where the source returns false.\<close>
  "Leaf_Lookup p key = map_of (leaf_array p) key"

section \<open>B+ tree (index/b\_plus\_tree.cpp)\<close>

text \<open>
  Modelled from the spec: the buffer pool manager and the header page are not among the
  sources (Sections 4.3 and 6 of the spec).  The pool is a store from page ids to pages;
  a pointer to a page is its key in the store.  Pin counts, dirty flags and latches are
  not modelled (the routines are followed for a null transaction), and the pool never
  runs out of frames: \<open>FetchPage\<close> gives null only for a page id that holds no page, and
  \<open>NewPage\<close> hands out a zeroed page under the next free id.  The header page keeps
  one record for this index, the root page id.

  \<open>leaf_max_size\<close> and \<open>internal_slots\<close> stand for the page-size arithmetic done in
  the two \<open>Init\<close> methods, \<open>blank_key\<close> for the key read from a zeroed slot.
\<close>

record ('k, 'v) BPlusTree =
  root_page_id :: page_id_t
  pages :: "page_id_t \<Rightarrow> ('k, 'v) BPlusTreePage option"
  next_free_page :: page_id_t
  header_record :: "page_id_t option"
  leaf_max_size :: int
  internal_slots :: nat
  blank_key :: 'k

definition blank_page :: "('k, 'v) BPlusTreePage" where
  "blank_page =
     \<lparr>page_type = INVALID_INDEX_PAGE, max_size = 0, parent_page_id = 0, page_id = 0,
      next_page_id = 0, prev_page_id = 0, leaf_array = [], internal_array = []\<rparr>"

definition NewPage :: "('k, 'v) BPlusTree \<Rightarrow> page_id_t \<times> ('k, 'v) BPlusTree" where
  "NewPage t =
     (next_free_page t,
      t\<lparr>next_free_page := next_free_page t + 1,
        pages := (pages t)(next_free_page t := Some blank_page)\<rparr>)"

definition UpdateRootPageId :: "bool \<Rightarrow> ('k, 'v) BPlusTree \<Rightarrow> ('k, 'v) BPlusTree" where
  "UpdateRootPageId insert_record t =
     (if insert_record
      then (if header_record t = None then t\<lparr>header_record := Some (root_page_id t)\<rparr> else t)
      else (if header_record t = None then t else t\<lparr>header_record := Some (root_page_id t)\<rparr>))"

definition IsEmpty :: "('k, 'v) BPlusTree \<Rightarrow> bool" where
  "IsEmpty t \<longleftrightarrow> root_page_id t = INVALID_PAGE_ID"

text \<open>
  The descent of \<open>FindLeafPage\<close>.  On a store whose child pointers run in a cycle it
  does not end, so it is a partial function.  The assertion on an empty tree is taken
  to fail (a build with assertions).
\<close>

partial_function (option) descend ::
  "('k::linorder, 'v) BPlusTree \<Rightarrow> 'k \<Rightarrow> page_id_t \<Rightarrow> (bpt_error + page_id_t) option" where
  "descend t key pid =
     (case pages t pid of
        None \<Rightarrow> Some (Inl NullPage)
      | Some p \<Rightarrow>
          if IsLeafPage p then Some (Inr pid)
          else (case Internal_Lookup p key of
                  Inl e \<Rightarrow> Some (Inl e)
                | Inr child \<Rightarrow> descend t key child))"

definition FindLeafPage ::
  "('k::linorder, 'v) BPlusTree \<Rightarrow> 'k \<Rightarrow> (bpt_error + page_id_t) option" where
  "FindLeafPage t key =
     (if IsEmpty t then Some (Inl AssertFail) else descend t key (root_page_id t))"

definition GetValue ::
  "('k::linorder, 'v) BPlusTree \<Rightarrow> 'k \<Rightarrow> (bpt_error + 'v option) option" where
  "GetValue t key =
     (case FindLeafPage t key of
        None \<Rightarrow> None
      | Some (Inl e) \<Rightarrow> Some (Inl e)
      | Some (Inr leaf) \<Rightarrow>
          (case pages t leaf of
             None \<Rightarrow> Some (Inl NullPage)
           | Some p \<Rightarrow> Some (Inr (Leaf_Lookup p key))))"

subsection \<open>Split\<close>

text \<open>
  \<open>Split\<close> on a leaf.  The new leaf takes the entries from index \<open>size div 2\<close> on and
  is linked in between the old leaf and its successor (the leaf part is modelled from
  the spec, see above).
\<close>

definition Split_leaf ::
  "('k, 'v) BPlusTree \<Rightarrow> page_id_t \<Rightarrow> bpt_error + ('k, 'v) BPlusTree \<times> page_id_t" where
  "Split_leaf t node =
     (case NewPage t of (new_id, t1) \<Rightarrow>
        (case pages t1 node of
           None \<Rightarrow> Inl NullPage
         | Some p \<Rightarrow>
             (let ptr = Leaf_Init (leaf_max_size t1) new_id (parent_page_id p) blank_page;
                  n = length (leaf_array p) div 2;
                  p' = p\<lparr>leaf_array := take n (leaf_array p), next_page_id := new_id\<rparr>;
                  ptr' = ptr\<lparr>leaf_array := drop n (leaf_array p),
                             next_page_id := next_page_id p, prev_page_id := page_id p\<rparr>;
                  pg = (pages t1)(node := Some p', new_id := Some ptr')
              in if next_page_id p = INVALID_PAGE_ID
                 then Inr (t1\<lparr>pages := pg\<rparr>, new_id)
                 else (case pg (next_page_id p) of
                         None \<Rightarrow> Inl NullPage
                       | Some nx \<Rightarrow>
                           Inr (t1\<lparr>pages := pg(next_page_id p := Some (nx\<lparr>prev_page_id := new_id\<rparr>))\<rparr>,
                                new_id)))))"

text \<open>
  \<open>Split\<close> on an internal page: \<open>MoveHalfTo\<close> moves the entries from index
  \<open>max_size / 2\<close> on to the fresh page and writes the new parent id into every child
  that moved.  Past the assertion \<open>size = max_size + 1\<close> the maximum size is at least
  \<open>-1\<close>, where the division of the source, which rounds towards zero, and the conversion
  to a natural number both give the index 0.
\<close>

fun reparent ::
  "(page_id_t \<Rightarrow> ('k, 'v) BPlusTreePage option) \<Rightarrow> page_id_t list \<Rightarrow> page_id_t
     \<Rightarrow> bpt_error + (page_id_t \<Rightarrow> ('k, 'v) BPlusTreePage option)" where
  "reparent pg [] parent = Inr pg"
| "reparent pg (c # cs) parent =
     (case pg c of
        None \<Rightarrow> Inl NullPage
      | Some ch \<Rightarrow> reparent (pg(c := Some (ch\<lparr>parent_page_id := parent\<rparr>))) cs parent)"

definition Split_internal ::
  "('k, 'v) BPlusTree \<Rightarrow> page_id_t \<Rightarrow> bpt_error + ('k, 'v) BPlusTree \<times> page_id_t" where
  "Split_internal t node =
     (case NewPage t of (new_id, t1) \<Rightarrow>
        (case pages t1 node of
           None \<Rightarrow> Inl NullPage
         | Some p \<Rightarrow>
             (let ptr = Internal_Init (internal_slots t1) new_id (parent_page_id p) blank_page;
                  start = nat (max_size p div 2);
                  p' = p\<lparr>internal_array := take start (internal_array p)\<rparr>;
                  ptr' = ptr\<lparr>internal_array := drop start (internal_array p)\<rparr>
              in if int (length (internal_array p)) \<noteq> max_size p + 1 then Inl AssertFail
                 else (case reparent ((pages t1)(node := Some p', new_id := Some ptr'))
                              (map snd (internal_array ptr')) (page_id ptr') of
                         Inl e \<Rightarrow> Inl e
                       | Inr pg \<Rightarrow> Inr (t1\<lparr>pages := pg\<rparr>, new_id)))))"

subsection \<open>Insertion\<close>

text \<open>
  \<open>InsertIntoParent\<close> climbs the parent pointers, which on a store with a cycle of
  parent pointers need not end.
\<close>

partial_function (option) InsertIntoParent ::
  "('k, 'v) BPlusTree \<Rightarrow> page_id_t \<Rightarrow> 'k \<Rightarrow> page_id_t \<Rightarrow> (bpt_error + ('k, 'v) BPlusTree) option" where
  "InsertIntoParent t old_node key new_node =
     (case pages t old_node of
        None \<Rightarrow> Some (Inl NullPage)
      | Some old \<Rightarrow>
     (case pages t new_node of
        None \<Rightarrow> Some (Inl NullPage)
      | Some new \<Rightarrow>
          if parent_page_id old = INVALID_PAGE_ID
          then (case NewPage t of (parent_pid, t1) \<Rightarrow>
                  (let parent = Internal_PopulateNewRoot (blank_key t1) (page_id old) key (page_id new)
                         (Internal_Init (internal_slots t1) parent_pid INVALID_PAGE_ID blank_page);
                       t2 = UpdateRootPageId False (t1\<lparr>root_page_id := parent_pid\<rparr>)
                   in Some (Inr (t2\<lparr>pages := (pages t2)
                        (old_node := Some (old\<lparr>parent_page_id := parent_pid\<rparr>),
                         new_node := Some (new\<lparr>parent_page_id := parent_pid\<rparr>),
                         parent_pid := Some parent)\<rparr>))))
          else (case pages t (parent_page_id old) of
                  None \<Rightarrow> Some (Inl NullPage)
                | Some parent \<Rightarrow>
                    (case Internal_InsertNodeAfter (page_id old) key (page_id new) parent of
                       Inl e \<Rightarrow> Some (Inl e)
                     | Inr parent' \<Rightarrow>
                         (let t1 = t\<lparr>pages := (pages t)(parent_page_id old := Some parent')\<rparr>
                          in if int (length (internal_array parent')) > max_size parent'
                             then (case Split_internal t1 (parent_page_id old) of
                                     Inl e \<Rightarrow> Some (Inl e)
                                   | Inr (t2, new_leaf) \<Rightarrow>
                                       (case pages t2 new_leaf of
                                          None \<Rightarrow> Some (Inl NullPage)
                                        | Some nl \<Rightarrow>
                                            (case Internal_KeyAt nl 0 of
                                               Inl e \<Rightarrow> Some (Inl e)
                                             | Inr k \<Rightarrow>
                                                 InsertIntoParent t2 (parent_page_id old) k new_leaf)))
                             else Some (Inr t1))))))"

definition InsertIntoLeaf ::
  "('k::linorder, 'v) BPlusTree \<Rightarrow> 'k \<Rightarrow> 'v \<Rightarrow> (bpt_error + bool \<times> ('k, 'v) BPlusTree) option" where
  "InsertIntoLeaf t key val =
     (case FindLeafPage t key of
        None \<Rightarrow> None
      | Some (Inl e) \<Rightarrow> Some (Inl e)
      | Some (Inr leaf) \<Rightarrow>
          (case pages t leaf of
             None \<Rightarrow> Some (Inl NullPage)
           | Some p \<Rightarrow>
               (let osize = GetSize p;
                    p' = Leaf_Insert key val p;
                    new_size = GetSize p';
                    t1 = t\<lparr>pages := (pages t)(leaf := Some p')\<rparr>
                in if int new_size > max_size p'
                   then (case Split_leaf t1 leaf of
                           Inl e \<Rightarrow> Some (Inl e)
                         | Inr (t2, right_leaf) \<Rightarrow>
                             (case pages t2 leaf of
                                None \<Rightarrow> Some (Inl NullPage)
                              | Some left_leaf \<Rightarrow>
                                  (case Leaf_KeyAt left_leaf (int (GetSize left_leaf) - 1) of
                                     Inl e \<Rightarrow> Some (Inl e)
                                   | Inr k \<Rightarrow>
                                       (case InsertIntoParent t2 leaf k right_leaf of
                                          None \<Rightarrow> None
                                        | Some (Inl e) \<Rightarrow> Some (Inl e)
                                        | Some (Inr t3) \<Rightarrow> Some (Inr (osize \<noteq> new_size, t3))))))
                   else Some (Inr (osize \<noteq> new_size, t1)))))"

definition StartNewTree ::
  "('k::linorder, 'v) BPlusTree \<Rightarrow> 'k \<Rightarrow> 'v \<Rightarrow> (bpt_error + ('k, 'v) BPlusTree) option" where
  "StartNewTree t key val =
     (let t1 = (if root_page_id t = INVALID_PAGE_ID
                then (case NewPage t of (pid, t') \<Rightarrow>
                        UpdateRootPageId True
                          (t'\<lparr>pages := (pages t')(pid := Some (Leaf_Init (leaf_max_size t') pid
                                  INVALID_PAGE_ID blank_page)),
                              root_page_id := pid\<rparr>))
                else t)
      in (case InsertIntoLeaf t1 key val of
            None \<Rightarrow> None
          | Some (Inl e) \<Rightarrow> Some (Inl e)
          | Some (Inr (ret, t2)) \<Rightarrow> Some (Inr t2)))"

definition BPT_Insert ::
  "('k::linorder, 'v) BPlusTree \<Rightarrow> 'k \<Rightarrow> 'v \<Rightarrow> (bpt_error + bool \<times> ('k, 'v) BPlusTree) option" where
  "BPT_Insert t key val =
     (if IsEmpty t
      then (case StartNewTree t key val of
              None \<Rightarrow> None
            | Some (Inl e) \<Rightarrow> Some (Inl e)
            | Some (Inr t') \<Rightarrow> Some (Inr (True, t')))
      else InsertIntoLeaf t key val)"

subsection \<open>AdjustRoot\<close>

definition AdjustRoot ::
  "('k, 'v) BPlusTree \<Rightarrow> page_id_t \<Rightarrow> bpt_error + bool \<times> ('k, 'v) BPlusTree" where
  "AdjustRoot t old_root_node =
     (case pages t old_root_node of
        None \<Rightarrow> Inl NullPage
      | Some p \<Rightarrow>
          if \<not> IsRootPage p then Inl AssertFail
          else if IsLeafPage p
          then (if int (GetSize p) < GetMinSize p
                then Inr (True, UpdateRootPageId False (t\<lparr>root_page_id := INVALID_PAGE_ID\<rparr>))
                else Inr (False, t))
          else (if GetSize p = 1
                then (let new_root = snd (internal_array p ! 0)
                      in case pages t new_root of
                           None \<Rightarrow> Inl NullPage
                         | Some nr \<Rightarrow>
                             Inr (True, UpdateRootPageId False
                               (t\<lparr>root_page_id := new_root,
                                  pages := (pages t)(new_root := Some
                                     (nr\<lparr>parent_page_id := INVALID_PAGE_ID\<rparr>))\<rparr>)))
                else Inr (False, t)))"

subsection \<open>Well-formed leaves, observers and example trees\<close>

text \<open>
  What the tree maintains about its leaves: keys strictly ascending, and no more entries
  than the maximum size once an insertion has finished.
\<close>

definition leaves_ok :: "('k::linorder, 'v) BPlusTree \<Rightarrow> bool" where
  "leaves_ok t \<longleftrightarrow>
     (\<forall>pid p. pages t pid = Some p \<longrightarrow> IsLeafPage p \<longrightarrow>
        sorted_wrt (<) (map fst (leaf_array p)) \<and> int (length (leaf_array p)) \<le> max_size p)"

definition leaf_array_at :: "('k, 'v) BPlusTree \<Rightarrow> page_id_t \<Rightarrow> ('k \<times> 'v) list" where
  "leaf_array_at t pid = (case pages t pid of None \<Rightarrow> [] | Some p \<Rightarrow> leaf_array p)"

definition internal_array_at :: "('k, 'v) BPlusTree \<Rightarrow> page_id_t \<Rightarrow> ('k \<times> page_id_t) list" where
  "internal_array_at t pid = (case pages t pid of None \<Rightarrow> [] | Some p \<Rightarrow> internal_array p)"

text \<open>
  A root leaf (page 1) of maximum size 4 with the given entries, in a tree whose next free
  page id is 2.
\<close>

definition ex_leaf :: "(nat \<times> nat) list \<Rightarrow> (nat, nat) BPlusTreePage" where
  "ex_leaf es =
     \<lparr>page_type = LEAF_PAGE, max_size = 4, parent_page_id = - 1, page_id = 1,
      next_page_id = - 1, prev_page_id = - 1, leaf_array = es, internal_array = []\<rparr>"

definition ex_tree :: "(nat \<times> nat) list \<Rightarrow> (nat, nat) BPlusTree" where
  "ex_tree es =
     \<lparr>root_page_id = 1, pages = (\<lambda>pid. None)(1 := Some (ex_leaf es)), next_free_page = 2,
      header_record = Some 1, leaf_max_size = 4, internal_slots = 5, blank_key = 0\<rparr>"

text \<open>
  The tree that inserting key 5 into the full root leaf \<open>[1, 2, 3, 4]\<close> leaves behind:
  an internal root (page 3) with the one separator 2 over the leaves \<open>[1, 2]\<close> (page 1) and
  \<open>[3, 4, 5]\<close> (page 2).
\<close>

definition ex_tree2 :: "(nat, nat) BPlusTree" where
  "ex_tree2 =
     \<lparr>root_page_id = 3,
      pages = (\<lambda>pid. None)
        (1 := Some \<lparr>page_type = LEAF_PAGE, max_size = 4, parent_page_id = 3, page_id = 1,
                    next_page_id = 2, prev_page_id = - 1,
                    leaf_array = [(1, 10), (2, 20)], internal_array = []\<rparr>,
         2 := Some \<lparr>page_type = LEAF_PAGE, max_size = 4, parent_page_id = 3, page_id = 2,
                    next_page_id = - 1, prev_page_id = 1,
                    leaf_array = [(3, 30), (4, 40), (5, 50)], internal_array = []\<rparr>,
         3 := Some \<lparr>page_type = INTERNAL_PAGE, max_size = 4, parent_page_id = - 1, page_id = 3,
                    next_page_id = 0, prev_page_id = 0,
                    leaf_array = [], internal_array = [(0, 1), (2, 2)]\<rparr>),
      next_free_page = 4, header_record = Some 3, leaf_max_size = 4, internal_slots = 5,
      blank_key = 0\<rparr>"

text \<open>The same tree after its root has lost the entry for page 2: an internal root of size 1.\<close>

definition ex_tree_single :: "(nat, nat) BPlusTree" where
  "ex_tree_single =
     ex_tree2\<lparr>pages := (pages ex_tree2)
        (3 := Some \<lparr>page_type = INTERNAL_PAGE, max_size = 4, parent_page_id = - 1, page_id = 3,
                    next_page_id = 0, prev_page_id = 0,
                    leaf_array = [], internal_array = [(0, 1)]\<rparr>)\<rparr>"

section \<open>Log recovery (logging/log\_recovery.cpp)\<close>

type_synonym lsn_t = int

datatype LogRecordType =
  INVALID_RECORD | INSERT | MARKDELETE | APPLYDELETE | ROLLBACKDELETE | UPDATE
  | BEGIN | COMMIT | ABORT | NEWPAGE

record RID =
  rid_page_id :: page_id_t
  rid_slot_num :: int

text \<open>
  Modelled from the spec: the log record class, the tuple class and the table page class
  are not among the sources (Sections 3 and 6 of the spec).  A log record has the five
  header fields and the payload fields that \<open>DeserializeLogRecord\<close> fills in; tuples are
  values of a type parameter.  A table page has its LSN and, in place of its bytes, the
  list of the table-page operations applied to it, latest first.  With logging switched
  off and no log manager passed in, these operations do not touch the page LSN.
\<close>

record 't LogRecord =
  lr_size :: int
  lr_lsn :: lsn_t
  lr_txn_id :: txn_id_t
  lr_prev_lsn :: lsn_t
  log_record_type :: LogRecordType
  delete_rid :: RID
  delete_tuple :: 't
  insert_rid :: RID
  insert_tuple :: 't
  update_rid :: RID
  old_tuple :: 't
  new_tuple :: 't
  prev_page_id_field :: page_id_t

datatype 't table_op =
  TP_Init page_id_t
  | TP_UpdateTuple 't 't RID
  | TP_InsertTuple 't RID
  | TP_MarkDelete RID
  | TP_RollbackDelete RID
  | TP_ApplyDelete RID

record 't TablePage =
  page_lsn :: lsn_t
  applied :: "'t table_op list"

text \<open>
  Modelled from the spec: the disk manager and the buffer pool manager are not among the
  sources.  The log file has a size, and \<open>log_view\<close> gives for each offset the record
  that the bytes from that offset on decode to; past the end of the file the bytes read
  are zero, so the record there has size 0.  \<open>ReadLog\<close> fails when the offset is at or
  past the end of the file, and otherwise fills the buffer from that offset.  The buffer
  pool is a function from page ids to table pages; pin counts are not modelled.
\<close>

record 't LogRecovery =
  LOG_BUFFER_SIZE :: int
  log_size :: int
  log_view :: "int \<Rightarrow> 't LogRecord"
  offset_field :: int
  active_txn :: "txn_id_t \<Rightarrow> lsn_t option"
  lsn_mapping :: "lsn_t \<Rightarrow> int option"
  bp_pages :: "page_id_t \<Rightarrow> 't TablePage"
  ENABLE_LOGGING :: bool

definition ReadLog :: "'t LogRecovery \<Rightarrow> int \<Rightarrow> (int \<Rightarrow> 't LogRecord) option" where
  "ReadLog st off =
     (if off \<ge> log_size st then None else Some (\<lambda>data. log_view st (off + data)))"

definition DeserializeLogRecord :: "(int \<Rightarrow> 't LogRecord) \<Rightarrow> int \<Rightarrow> int \<Rightarrow> 't LogRecord option" where
  "DeserializeLogRecord log_buffer data sz =
     (if sz < 4 then None
      else if lr_size (log_buffer data) > sz \<or> lr_size (log_buffer data) \<le> 0 then None
      else Some (log_buffer data))"

definition track_txn :: "'t LogRecord \<Rightarrow> 't LogRecovery \<Rightarrow> 't LogRecovery" where
  "track_txn record st =
     (if log_record_type record = BEGIN
      then st\<lparr>active_txn := (active_txn st)(lr_txn_id record := Some (lr_lsn record))\<rparr>
      else if log_record_type record = COMMIT \<or> log_record_type record = ABORT
      then st\<lparr>active_txn := (active_txn st)(lr_txn_id record := None)\<rparr>
      else st\<lparr>active_txn := (active_txn st)(lr_txn_id record := Some (lr_lsn record))\<rparr>)"

definition apply_op :: "page_id_t \<Rightarrow> 't table_op \<Rightarrow> 't LogRecovery \<Rightarrow> 't LogRecovery" where
  "apply_op pid opn st =
     st\<lparr>bp_pages := (bp_pages st)(pid := (bp_pages st pid)\<lparr>applied := opn # applied (bp_pages st pid)\<rparr>)\<rparr>"

text \<open>
  The chain of type tests in the loop body of \<open>Redo\<close>.  \<open>None\<close> is the \<open>continue\<close>
  statement taken when the page LSN is not below the LSN of the record; otherwise the
  state after the operation.  A NEWPAGE record is applied without looking at the page LSN.
\<close>

definition redo_record :: "'t LogRecord \<Rightarrow> 't LogRecovery \<Rightarrow> 't LogRecovery option" where
  "redo_record record st =
     (let ty = log_record_type record in
      if ty = NEWPAGE
      then Some (apply_op (prev_page_id_field record) (TP_Init (prev_page_id_field record)) st)
      else if ty = UPDATE
      then (if page_lsn (bp_pages st (rid_page_id (update_rid record))) \<ge> lr_lsn record then None
            else Some (apply_op (rid_page_id (update_rid record))
                   (TP_UpdateTuple (new_tuple record) (old_tuple record) (update_rid record)) st))
      else if ty = INSERT
      then (if page_lsn (bp_pages st (rid_page_id (insert_rid record))) \<ge> lr_lsn record then None
            else Some (apply_op (rid_page_id (insert_rid record))
                   (TP_InsertTuple (insert_tuple record) (insert_rid record)) st))
      else if ty = MARKDELETE
      then (if page_lsn (bp_pages st (rid_page_id (delete_rid record))) \<ge> lr_lsn record then None
            else Some (apply_op (rid_page_id (delete_rid record)) (TP_MarkDelete (delete_rid record)) st))
      else if ty = ROLLBACKDELETE
      then (if page_lsn (bp_pages st (rid_page_id (delete_rid record))) \<ge> lr_lsn record then None
            else Some (apply_op (rid_page_id (delete_rid record)) (TP_RollbackDelete (delete_rid record)) st))
      else if ty = APPLYDELETE
      then (if page_lsn (bp_pages st (rid_page_id (delete_rid record))) \<ge> lr_lsn record then None
            else Some (apply_op (rid_page_id (delete_rid record)) (TP_ApplyDelete (delete_rid record)) st))
      else Some st)"

text \<open>
  The inner loop of \<open>Redo\<close> over one buffer.  \<open>Returned\<close> is the \<open>return\<close> taken when
  a record does not deserialize, \<open>Scanned\<close> the end of the loop with the record counter.
  After \<open>continue\<close> the loop runs again with \<open>data\<close> and \<open>size\<close> as they were.
\<close>

datatype 't scan_result = Returned "'t LogRecovery" | Scanned "'t LogRecovery" int

partial_function (option) Redo_scan ::
  "(int \<Rightarrow> 't LogRecord) \<Rightarrow> 't LogRecovery \<Rightarrow> int \<Rightarrow> int \<Rightarrow> int \<Rightarrow> 't scan_result option" where
  "Redo_scan log_buffer st data sz fetchCnt =
     (if sz > 0
      then (case DeserializeLogRecord log_buffer data sz of
              None \<Rightarrow> Some (Returned (st\<lparr>ENABLE_LOGGING := True\<rparr>))
            | Some record \<Rightarrow>
                (case redo_record record (track_txn record st) of
                   None \<Rightarrow> Redo_scan log_buffer (track_txn record st) data sz fetchCnt
                 | Some st' \<Rightarrow>
                     Redo_scan log_buffer
                       (st'\<lparr>lsn_mapping := (lsn_mapping st')
                              (lr_lsn record := Some (data + fetchCnt * LOG_BUFFER_SIZE st'))\<rparr>)
                       (data + lr_size record) (sz - lr_size record) (fetchCnt + 1)))
      else Some (Scanned st fetchCnt))"

partial_function (option) Redo_buffers :: "'t LogRecovery \<Rightarrow> int \<Rightarrow> 't LogRecovery option" where
  "Redo_buffers st fetchCnt =
     (case ReadLog st (offset_field st) of
        None \<Rightarrow> Some (st\<lparr>ENABLE_LOGGING := True\<rparr>)
      | Some log_buffer \<Rightarrow>
          (case Redo_scan log_buffer st 0 (LOG_BUFFER_SIZE st) fetchCnt of
             None \<Rightarrow> None
           | Some (Returned st') \<Rightarrow> Some st'
           | Some (Scanned st' fetchCnt') \<Rightarrow>
               Redo_buffers (st'\<lparr>offset_field := offset_field st' + LOG_BUFFER_SIZE st'\<rparr>) fetchCnt'))"

definition Redo :: "'t LogRecovery \<Rightarrow> 't LogRecovery option" where
  "Redo st = Redo_buffers (st\<lparr>ENABLE_LOGGING := False\<rparr>) 0"

text \<open>
  A log of 80 bytes written by transaction 1: BEGIN (LSN 0, 20 bytes), INSERT of a tuple
  into slot 0 of page 2 (LSN 1, 40 bytes), COMMIT (LSN 2, 20 bytes).  Page 2 was written
  back after the insertion and carries LSN 1.  The log buffer has 128 bytes.
\<close>

definition ex_record :: "int \<Rightarrow> lsn_t \<Rightarrow> lsn_t \<Rightarrow> LogRecordType \<Rightarrow> nat LogRecord" where
  "ex_record sz lsn prev ty =
     \<lparr>lr_size = sz, lr_lsn = lsn, lr_txn_id = 1, lr_prev_lsn = prev, log_record_type = ty,
      delete_rid = \<lparr>rid_page_id = 0, rid_slot_num = 0\<rparr>, delete_tuple = 0,
      insert_rid = \<lparr>rid_page_id = 2, rid_slot_num = 0\<rparr>, insert_tuple = 42,
      update_rid = \<lparr>rid_page_id = 0, rid_slot_num = 0\<rparr>, old_tuple = 0, new_tuple = 0,
      prev_page_id_field = 0\<rparr>"

definition ex_recovery :: "nat LogRecovery" where
  "ex_recovery =
     \<lparr>LOG_BUFFER_SIZE = 128, log_size = 80,
      log_view = (\<lambda>pos. ex_record 0 0 0 INVALID_RECORD)
         (0 := ex_record 20 0 (- 1) BEGIN, 20 := ex_record 40 1 0 INSERT,
          60 := ex_record 20 2 1 COMMIT),
      offset_field = 0, active_txn = (\<lambda>t. None), lsn_mapping = (\<lambda>l. None),
      bp_pages = (\<lambda>pid. \<lparr>page_lsn = - 1, applied = []\<rparr>)(2 := \<lparr>page_lsn = 1, applied = []\<rparr>),
      ENABLE_LOGGING = True\<rparr>"

chapter \<open>Verification\<close>

section \<open>LRU replacer: Victim\<close>

text \<open>
  Every replacer that a history of calls leaves behind keeps its list and its key set in
  step, and keeps the list ordered by age: the front is the most recently inserted item.
\<close>

lemma sorted_wrt_remove1_any:
  "sorted_wrt P xs \<Longrightarrow> sorted_wrt P (remove1 x xs)"
  by (induction xs) (auto dest: notin_set_remove1)


lemma lru_inv_distinct: "lru_inv h s \<Longrightarrow> distinct (lru_lst s)"
  unfolding lru_inv_def
  by (metis (mono_tags, lifting) less_irrefl sorted_wrt_mono_rel distinct_conv_nth sorted_wrt_iff_nth_less nat_neq_iff)

lemma lru_inv_new: "lru_inv [] LRU_new"
  by (simp add: lru_inv_def LRU_new_def)

lemma lru_inv_Insert:
  assumes "lru_inv h s"
  shows "lru_inv (OpInsert v # h) (LRU_Insert v s)"
proof -
  have d: "distinct (lru_lst s)" using assms by (rule lru_inv_distinct)
  let ?l = "if v \<in> lru_map s then remove1 v (lru_lst s) else lru_lst s"
  have notin: "v \<notin> set ?l" using d assms by (auto simp: lru_inv_def)
  have sub: "set ?l \<subseteq> set (lru_lst s)" using set_remove1_subset[of v "lru_lst s"] by (auto split: if_splits)
  have seteq: "insert v (set ?l) = insert v (lru_map s)"
    using d assms by (auto simp: lru_inv_def)
  have s0: "sorted_wrt (\<lambda>x y. age h x < age h y) ?l"
    using assms by (auto simp: lru_inv_def sorted_wrt_remove1_any)
  have s1: "sorted_wrt (\<lambda>x y. age (OpInsert v # h) x < age (OpInsert v # h) y) ?l"
    using notin by (intro sorted_wrt_mono_rel[OF _ s0]) auto
  have b: "\<forall>x \<in> set ?l. age (OpInsert v # h) x < length (OpInsert v # h)"
    using sub assms notin by (auto simp: lru_inv_def)
  have hd: "\<forall>x \<in> set ?l. age (OpInsert v # h) v < age (OpInsert v # h) x"
    using notin by auto
  have eq: "LRU_Insert v s = \<lparr>lru_lst = v # ?l, lru_map = insert v (lru_map s)\<rparr>"
    by (simp add: LRU_Insert_def)
  have "set (v # ?l) = insert v (lru_map s)" using seteq by simp
  moreover have "sorted_wrt (\<lambda>x y. age (OpInsert v # h) x < age (OpInsert v # h) y) (v # ?l)"
    using s1 hd by simp
  moreover have "\<forall>x \<in> set (v # ?l). age (OpInsert v # h) x < length (OpInsert v # h)"
    using b by simp
  ultimately show ?thesis
    unfolding lru_inv_def eq by simp
qed

lemma lru_inv_Victim:
  assumes "lru_inv h s"
  shows "lru_inv (OpVictim val # h) (snd (snd (LRU_Victim val s)))"
proof (cases "lru_lst s = []")
  case True
  then show ?thesis using assms
    by (auto simp: LRU_Victim_def lru_inv_def intro: sorted_wrt_mono_rel[rotated])
next
  case False
  have d: "distinct (lru_lst s)" using assms by (rule lru_inv_distinct)
  from False obtain ys y where ys: "lru_lst s = ys @ [y]"
    by (metis append_butlast_last_id)
  have s0: "sorted_wrt (\<lambda>x y. age h x < age h y) ys"
    using assms ys by (auto simp: lru_inv_def sorted_wrt_append)
  have s1: "sorted_wrt (\<lambda>x y. age (OpVictim val # h) x < age (OpVictim val # h) y) ys"
    by (intro sorted_wrt_mono_rel[OF _ s0]) auto
  show ?thesis
    using assms ys d s1 by (auto simp: LRU_Victim_def lru_inv_def)
qed

lemma lru_inv_Erase:
  assumes "lru_inv h s"
  shows "lru_inv (OpErase v # h) (snd (LRU_Erase v s))"
proof -
  have d: "distinct (lru_lst s)" using assms by (rule lru_inv_distinct)
  have s0: "sorted_wrt (\<lambda>x y. age h x < age h y) (lru_lst s)"
    using assms by (auto simp: lru_inv_def)
  have s1: "sorted_wrt (\<lambda>x y. age (OpErase v # h) x < age (OpErase v # h) y) (lru_lst s)"
    by (intro sorted_wrt_mono_rel[OF _ s0]) auto
  have s2: "sorted_wrt (\<lambda>x y. age (OpErase v # h) x < age (OpErase v # h) y) (remove1 v (lru_lst s))"
    using s1 by (rule sorted_wrt_remove1_any)
  show ?thesis
    using assms d s1 s2 by (auto simp: LRU_Erase_def lru_inv_def dest: notin_set_remove1)
qed

lemma lru_inv_after: "lru_inv h (lru_after h)"
proof (induction h)
  case Nil
  show ?case by (simp add: lru_inv_new)
next
  case (Cons c h)
  then show ?case
    by (cases c) (simp_all add: lru_inv_Insert lru_inv_Victim lru_inv_Erase)
qed

text \<open>
  Claim C10.  On an empty replacer \<open>Victim\<close> returns false and leaves the replacer and
  the out-parameter as they were.  On a non-empty replacer it returns true, outputs an
  item of the replacer whose most recent Insert lies further back than that of every other
  item, and removes exactly that item, so that \<open>Size\<close> drops by one.
\<close>

theorem LRU_Victim_correct:
  "(LRU_Size (lru_after h) = 0 \<longrightarrow>
      LRU_Victim val (lru_after h) = (False, val, lru_after h)) \<and>
   (LRU_Size (lru_after h) \<noteq> 0 \<longrightarrow>
      (\<exists>v s'. LRU_Victim val (lru_after h) = (True, v, s')
         \<and> v \<in> lru_map (lru_after h)
         \<and> (\<forall>y \<in> lru_map (lru_after h). y \<noteq> v \<longrightarrow> age h y < age h v)
         \<and> lru_map s' = lru_map (lru_after h) - {v}
         \<and> lru_lst s' = butlast (lru_lst (lru_after h))
         \<and> set (lru_lst s') = lru_map s'
         \<and> LRU_Size s' + 1 = LRU_Size (lru_after h)))"
proof -
  let ?s = "lru_after h"
  have inv: "lru_inv h ?s" by (rule lru_inv_after)
  have d: "distinct (lru_lst ?s)" using inv by (rule lru_inv_distinct)
  have m: "lru_map ?s = set (lru_lst ?s)" using inv by (simp add: lru_inv_def)
  show ?thesis
  proof (cases "lru_lst ?s = []")
    case True
    then show ?thesis by (simp add: LRU_Victim_def LRU_Size_def m)
  next
    case False
    then obtain ys y where ys: "lru_lst ?s = ys @ [y]"
      by (metis append_butlast_last_id)
    have ny: "y \<notin> set ys" using d ys by simp
    have older: "\<forall>x \<in> set ys. age h x < age h y"
      using inv ys by (simp add: lru_inv_def sorted_wrt_append)
    have v: "LRU_Victim val ?s = (True, y, \<lparr>lru_lst = ys, lru_map = lru_map ?s - {y}\<rparr>)"
      using ys by (simp add: LRU_Victim_def)
    have ms: "lru_map ?s = insert y (set ys)" using m ys by simp
    have c: "card (set ys) + 1 = card (insert y (set ys))" using ny by simp
    have nz: "LRU_Size ?s \<noteq> 0" using ms by (simp add: LRU_Size_def)
    have rest: "lru_map ?s - {y} = set ys" using ms ny by auto
    show ?thesis
      using nz v older ys c rest ms by (simp add: LRU_Size_def)
  qed
qed

theorem LRU_Victim_correct_witness:
  "LRU_Size (lru_after [OpInsert 4, OpErase 2, OpInsert 3, OpInsert 2, OpInsert (1::nat)]) \<noteq> 0
   \<and> LRU_Victim 0 (lru_after [OpInsert 4, OpErase 2, OpInsert 3, OpInsert 2, OpInsert (1::nat)])
       = (True, 1, \<lparr>lru_lst = [4, 3], lru_map = {3, 4}\<rparr>)
   \<and> age [OpInsert 4, OpErase 2, OpInsert 3, OpInsert 2, OpInsert (1::nat)] 3 
       < age [OpInsert 4, OpErase 2, OpInsert 3, OpInsert 2, OpInsert (1::nat)] 1
   \<and> LRU_Size (lru_after ([] :: nat lru_op list)) = 0
   \<and> LRU_Victim (7::nat) (lru_after []) = (False, 7, lru_after [])"
  using LRU_Victim_correct [of "[OpInsert 4, OpErase 2, OpInsert 3, OpInsert 2, OpInsert (1::nat)]" 0]
        LRU_Victim_correct [of "[] :: nat lru_op list" 7]
  by (auto simp: LRU_Size_def LRU_Victim_def LRU_Insert_def LRU_Erase_def LRU_new_def)

section \<open>Extendible hash table: Find, Remove, Insert\<close>

subsection \<open>Index arithmetic and the invariant\<close>

lemma and_low_mask: "(h::nat) AND (2 ^ n - Suc 0) = take_bit n h"
  by (simp add: take_bit_eq_mask mask_eq_exp_minus_1)

lemma exp_and_eq_0: "((2::nat) ^ n AND i = 0) \<longleftrightarrow> \<not> bit i n"
  by (metis and.commute and_exp_eq_0_iff_not_bit)

lemma exp_and_pos: "(0 < (2::nat) ^ n AND i) \<longleftrightarrow> bit i n"
  using exp_and_eq_0[of n i] by auto

lemma eh_inv_slot:
  assumes "eh_inv s" "a \<in> set (bucket_directory s)" "heap s a = Some b"
  shows "local_depth b \<le> global_depth s" "distinct (map fst (bucket_map b))" "a < next_addr s"
proof -
  have "a < next_addr s \<and> (\<exists>b. heap s a = Some b \<and> local_depth b \<le> global_depth s
              \<and> distinct (map fst (bucket_map b)))"
    using assms(1,2) unfolding eh_inv_def by blast
  then show "local_depth b \<le> global_depth s" "distinct (map fst (bucket_map b))" "a < next_addr s"
    using assms(3) by auto
qed

lemma GetBucket_inv:
  assumes "eh_inv s"
  shows "GetBucket H s key = Inr (bucket_directory s ! take_bit (global_depth s) (H key))"
    and "take_bit (global_depth s) (H key) < length (bucket_directory s)"
    and "bucket_directory s ! take_bit (global_depth s) (H key) \<in> set (bucket_directory s)"
proof -
  show lt: "take_bit (global_depth s) (H key) < length (bucket_directory s)"
    using assms by (simp add: eh_inv_def)
  show "GetBucket H s key = Inr (bucket_directory s ! take_bit (global_depth s) (H key))"
    using assms lt by (simp add: GetBucket_def GetBucketIndex_def and_low_mask eh_inv_def)
  show "bucket_directory s ! take_bit (global_depth s) (H key) \<in> set (bucket_directory s)"
    using lt by simp
qed

lemma Find_inv:
  assumes "eh_inv s"
  shows "\<exists>b. heap s (bucket_directory s ! take_bit (global_depth s) (H key)) = Some b
           \<and> Find H s key = Inr (map_of (bucket_map b) key)"
proof -
  have "\<exists>b. heap s (bucket_directory s ! take_bit (global_depth s) (H key)) = Some b"
    using assms GetBucket_inv(3)[OF assms, of H key] unfolding eh_inv_def by blast
  then obtain b where "heap s (bucket_directory s ! take_bit (global_depth s) (H key)) = Some b"
    by blast
  then show ?thesis
    by (simp add: Find_def GetBucket_inv(1)[OF assms])
qed

lemma eh_inv_new: "eh_inv (EH_new sz)"
  by (simp add: eh_inv_def EH_new_def)

lemma eh_inv_heap_update:
  assumes "eh_inv s" "heap s a = Some b" "local_depth b' = local_depth b"
    "distinct (map fst (bucket_map b'))"
  shows "eh_inv (s\<lparr>heap := (heap s)(a := Some b')\<rparr>)"
  using assms unfolding eh_inv_def by auto

subsection \<open>Splitting a bucket\<close>

lemma map_of_filter_fst:
  "map_of (filter (\<lambda>item. P (fst item)) al) k = (if P k then map_of al k else None)"
  by (induction al) auto

lemma map_of_filter_bit:
  "map_of (filter (\<lambda>item. bit (H (fst item)) n) al) k = (if bit (H k) n then map_of al k else None)"
  "map_of (filter (\<lambda>item. \<not> bit (H (fst item)) n) al) k = (if bit (H k) n then None else map_of al k)"
  using map_of_filter_fst[of "\<lambda>x. bit (H x) n" al k]
    map_of_filter_fst[of "\<lambda>x. \<not> bit (H x) n" al k] by simp_all

lemma nth_append_self:
  assumes "i < 2 * length xs"
  shows "(xs @ xs) ! i = xs ! (i mod length xs)"
proof (cases "i < length xs")
  case True
  then show ?thesis by (simp add: nth_append)
next
  case False
  then have "i mod length xs = i - length xs"
    using assms by (simp add: mod_if)
  then show ?thesis using False by (simp add: nth_append)
qed

lemma retarget_length [simp]: "length (retarget dir a m l r) = length dir"
  by (simp add: retarget_def)

lemma retarget_nth:
  "i < length dir \<Longrightarrow>
   retarget dir a (2 ^ n) l r ! i = (if dir ! i = a then (if bit i n then r else l) else dir ! i)"
  by (simp add: retarget_def exp_and_eq_0 exp_and_pos)

lemma retarget_set:
  "set (retarget dir a m l r) \<subseteq> {l, r} \<union> (set dir - {a})"
  by (auto simp: retarget_def)

text \<open>The directory after the optional doubling.\<close>

lemma pre_split_facts:
  assumes inv: "eh_inv s" and b: "heap s a = Some b" and a: "a \<in> set (bucket_directory s)"
  defines "s1 \<equiv> (if local_depth b = global_depth s then double_directory s else s)"
  shows "length (bucket_directory s1) = 2 ^ global_depth s1"
    and "set (bucket_directory s1) = set (bucket_directory s)"
    and "local_depth b < global_depth s1"
    and "global_depth s \<le> global_depth s1"
    and "heap s1 = heap s" and "next_addr s1 = next_addr s" and "size_limit s1 = size_limit s"
    and "\<forall>i < length (bucket_directory s1).
            bucket_directory s1 ! i = bucket_directory s ! take_bit (global_depth s) i"
proof -
  have len: "length (bucket_directory s) = 2 ^ global_depth s"
    using inv by (simp add: eh_inv_def)
  have ld: "local_depth b \<le> global_depth s"
    by (rule eh_inv_slot(1)[OF inv a b])
  show "length (bucket_directory s1) = 2 ^ global_depth s1"
    using len by (simp add: s1_def double_directory_def)
  show "set (bucket_directory s1) = set (bucket_directory s)"
    by (simp add: s1_def double_directory_def)
  show "local_depth b < global_depth s1"
    using ld by (simp add: s1_def double_directory_def)
  show "global_depth s \<le> global_depth s1"
    by (simp add: s1_def double_directory_def)
  show "heap s1 = heap s" "next_addr s1 = next_addr s" "size_limit s1 = size_limit s"
    by (simp_all add: s1_def double_directory_def)
  show "\<forall>i < length (bucket_directory s1).
            bucket_directory s1 ! i = bucket_directory s ! take_bit (global_depth s) i"
  proof (intro allI impI)
    fix i assume i: "i < length (bucket_directory s1)"
    show "bucket_directory s1 ! i = bucket_directory s ! take_bit (global_depth s) i"
    proof (cases "local_depth b = global_depth s")
      case True
      then have "i < 2 * length (bucket_directory s)"
        using i by (simp add: s1_def double_directory_def)
      then have "bucket_directory s1 ! i = bucket_directory s ! (i mod length (bucket_directory s))"
        using True by (simp add: s1_def double_directory_def nth_append_self)
      then show ?thesis using len by (simp add: take_bit_eq_mod)
    next
      case False
      then have "i < 2 ^ global_depth s" using i len by (simp add: s1_def)
      then have "take_bit (global_depth s) i = i"
        by (simp add: take_bit_eq_mod)
      then show ?thesis using False by (simp add: s1_def)
    qed
  qed
qed

lemma split_bucket_fields:
  defines "s1 \<equiv> \<lambda>s (b::('k, 'v) Bucket). (if local_depth b = global_depth s then double_directory s else s)"
  shows "global_depth (split_bucket H s a b) = global_depth (s1 s b)"
    and "size_limit (split_bucket H s a b) = size_limit (s1 s b)"
    and "next_addr (split_bucket H s a b) = next_addr (s1 s b) + 2"
    and "bucket_directory (split_bucket H s a b) =
           retarget (bucket_directory (s1 s b)) a (2 ^ local_depth b)
             (next_addr (s1 s b)) (next_addr (s1 s b) + 1)"
    and "heap (split_bucket H s a b) =
           (heap (s1 s b))(a := None,
              next_addr (s1 s b) := Some \<lparr>local_depth = local_depth b + 1,
                 bucket_map = filter (\<lambda>item. \<not> bit (H (fst item)) (local_depth b)) (bucket_map b)\<rparr>,
              next_addr (s1 s b) + 1 := Some \<lparr>local_depth = local_depth b + 1,
                 bucket_map = filter (\<lambda>item. bit (H (fst item)) (local_depth b)) (bucket_map b)\<rparr>)"
  by (simp_all add: split_bucket_def Let_def s1_def exp_and_eq_0 exp_and_pos)

lemma split_bucket_correct:
  assumes inv: "eh_inv s" and b: "heap s a = Some b" and a: "a \<in> set (bucket_directory s)"
    and gd: "global_depth (split_bucket H s a b) \<le> 30"
  shows "eh_inv (split_bucket H s a b)"
    and "Find H (split_bucket H s a b) k = Find H s k"
    and "size_limit (split_bucket H s a b) = size_limit s"
proof -
  define s1 where "s1 = (if local_depth b = global_depth s then double_directory s else s)"
  define s3 where "s3 = split_bucket H s a b"
  define L where "L = next_addr s"
  define R where "R = next_addr s + 1"
  define left where "left = \<lparr>local_depth = local_depth b + 1,
      bucket_map = filter (\<lambda>item. \<not> bit (H (fst item)) (local_depth b)) (bucket_map b)\<rparr>"
  define right where "right = \<lparr>local_depth = local_depth b + 1,
      bucket_map = filter (\<lambda>item. bit (H (fst item)) (local_depth b)) (bucket_map b)\<rparr>"
  note pre = pre_split_facts[OF inv b a, folded s1_def]
  have f_gd: "global_depth s3 = global_depth s1"
    and f_na: "next_addr s3 = next_addr s + 2"
    and f_dir: "bucket_directory s3 = retarget (bucket_directory s1) a (2 ^ local_depth b) L R"
    and f_heap: "heap s3 = (heap s)(a := None, L := Some left, R := Some right)"
    unfolding s3_def L_def R_def left_def right_def
    using split_bucket_fields[of H s a b, folded s1_def] pre(5,6) by simp_all
  have lenq: "length (bucket_directory s3) = 2 ^ global_depth s3"
    using pre(1) f_dir f_gd by simp
  have LR: "L \<noteq> R" by (simp add: L_def R_def)
  have old_lt: "x < next_addr s" if "x \<in> set (bucket_directory s)" for x
    using inv that unfolding eh_inv_def by blast
  have aL: "a \<noteq> L" "a \<noteq> R" using old_lt[OF a] by (simp_all add: L_def R_def)
  have d: "distinct (map fst (bucket_map b))"
    by (rule eh_inv_slot(2)[OF inv a b])
  have slot: "x < next_addr s3 \<and> (\<exists>c. heap s3 x = Some c \<and> local_depth c \<le> global_depth s3
              \<and> distinct (map fst (bucket_map c)))"
    if x: "x \<in> set (bucket_directory s3)" for x
  proof -
    have "x \<in> {L, R} \<union> (set (bucket_directory s) - {a})"
      using x retarget_set[of "bucket_directory s1" a "2 ^ local_depth b" L R] f_dir pre(2) by auto
    then consider "x = L" | "x = R" | "x \<in> set (bucket_directory s)" "x \<noteq> a" by blast
    then show ?thesis
    proof cases
      case 1
      then show ?thesis using LR aL pre(3) d
        by (simp add: f_heap f_na f_gd L_def left_def distinct_map_filter)
    next
      case 2
      then show ?thesis using LR aL pre(3) d
        by (simp add: f_heap f_na f_gd R_def right_def distinct_map_filter)
    next
      case 3
      have lt: "x < next_addr s" using old_lt[OF 3(1)] .
      obtain c where c: "heap s x = Some c"
        using inv 3(1) unfolding eh_inv_def by blast
      have "local_depth c \<le> global_depth s" "distinct (map fst (bucket_map c))"
        using eh_inv_slot[OF inv 3(1) c] by simp_all
      then show ?thesis using lt 3(2) c pre(4)
        by (simp add: f_heap f_na f_gd L_def R_def)
    qed
  qed
  show inv3: "eh_inv (split_bucket H s a b)"
    unfolding eh_inv_def s3_def[symmetric]
    using gd lenq slot by (auto simp: s3_def)
  show "size_limit (split_bucket H s a b) = size_limit s"
    using split_bucket_fields(2)[of H s a b, folded s1_def] pre(7) by simp
  show "Find H (split_bucket H s a b) k = Find H s k"
  proof -
    let ?i3 = "take_bit (global_depth s3) (H k)"
    let ?i = "take_bit (global_depth s) (H k)"
    let ?a0 = "bucket_directory s ! ?i"
    have i3: "?i3 < length (bucket_directory s1)"
      using pre(1) f_gd by simp
    have a0: "bucket_directory s1 ! ?i3 = ?a0"
      using pre(8) i3 pre(4) f_gd by (simp add: min_def)
    have a0_in: "?a0 \<in> set (bucket_directory s)"
      by (rule GetBucket_inv(3)[OF inv])
    obtain c where c: "heap s ?a0 = Some c" and fc: "Find H s k = Inr (map_of (bucket_map c) k)"
      using Find_inv[OF inv, of H k] by blast
    have g3: "GetBucket H s3 k = Inr (bucket_directory s3 ! ?i3)"
      using GetBucket_inv(1)[OF inv3[folded s3_def], of H k] .
    have n3: "bucket_directory s3 ! ?i3 =
       (if ?a0 = a then (if bit (H k) (local_depth b) then R else L) else ?a0)"
      using retarget_nth[OF i3, of a "local_depth b" L R] a0 pre(3) f_gd
      by (simp add: f_dir bit_take_bit_iff)
    show ?thesis
    proof (cases "?a0 = a")
      case True
      then have cb: "c = b" using c b by simp
      show ?thesis
        unfolding s3_def[symmetric]
        using True cb fc LR aL
        by (simp add: Find_def g3 n3 f_heap left_def right_def map_of_filter_bit)
    next
      case False
      have "?a0 < next_addr s" using old_lt[OF a0_in] .
      then have "heap s3 ?a0 = heap s ?a0"
        using False by (simp add: f_heap L_def R_def)
      then show ?thesis
        unfolding s3_def[symmetric]
        using False fc c by (simp add: Find_def g3 n3)
    qed
  qed
qed

subsection \<open>The loop of Insert\<close>

lemma GetBucket_Inr_depth: "GetBucket H s key = Inr a \<Longrightarrow> global_depth s \<le> 30"
  by (auto simp: GetBucket_def GetBucketIndex_def split: if_splits sum.splits)

lemma Insert_loop_correct:
  assumes "Insert_loop H key s a = Some y"
  shows "loop_post H key s a y"
proof (rule Insert_loop.raw_induct[where P = loop_post, OF _ assms])
  fix loop :: "('k \<Rightarrow> nat) \<Rightarrow> 'k \<Rightarrow> ('k, 'v) ExtendibleHash \<Rightarrow> nat
     \<Rightarrow> (eh_error + ('k, 'v) ExtendibleHash \<times> nat) option"
  fix H key s a y
  assume IH: "\<And>H key s a y. loop H key s a = Some y \<Longrightarrow> loop_post H key s a y"
  assume body: "(case heap s a of
        None \<Rightarrow> Some (Inl Dangling)
      | Some b \<Rightarrow>
          if length (bucket_map b) = size_limit s
          then (if local_depth b \<le> 30
                then (case GetBucket H (split_bucket H s a b) key of
                        Inl e \<Rightarrow> Some (Inl e)
                      | Inr bucket' \<Rightarrow> loop H key (split_bucket H s a b) bucket')
                else Some (Inl ShiftOverflow))
          else Some (Inr (s, a))) = Some y"
  show "loop_post H key s a y"
    unfolding loop_post_def
  proof (intro impI)
    assume inv: "eh_inv s" and gb: "GetBucket H s key = Inr a"
    have a_in: "a \<in> set (bucket_directory s)"
      using GetBucket_inv[OF inv, of H key] gb by simp
    obtain b where b: "heap s a = Some b"
      using inv a_in unfolding eh_inv_def by blast
    show "case y of Inl e \<Rightarrow> True
      | Inr (s', a') \<Rightarrow> eh_inv s' \<and> GetBucket H s' key = Inr a'
           \<and> size_limit s' = size_limit s
           \<and> (\<exists>b'. heap s' a' = Some b' \<and> length (bucket_map b') \<noteq> size_limit s')
           \<and> (\<forall>k. Find H s' k = Find H s k)"
    proof (cases "length (bucket_map b) = size_limit s")
      case False
      then have "y = Inr (s, a)" using body b by simp
      then show ?thesis using inv gb b False by simp
    next
      case True
      let ?s3 = "split_bucket H s a b"
      show ?thesis
      proof (cases "local_depth b \<le> 30")
        case False
        then have "y = Inl ShiftOverflow" using body b True by simp
        then show ?thesis by simp
      next
        case ld: True
        show ?thesis
        proof (cases "GetBucket H ?s3 key")
          case (Inl e)
          then have "y = Inl e" using body b True ld by simp
          then show ?thesis by simp
        next
          case (Inr a')
          then have rec: "loop H key ?s3 a' = Some y"
            using body b True ld by simp
          have gd3: "global_depth ?s3 \<le> 30" using Inr by (rule GetBucket_Inr_depth)
          note sp = split_bucket_correct[OF inv b a_in gd3]
          have "case y of Inl e \<Rightarrow> True
            | Inr (s', a'') \<Rightarrow> eh_inv s' \<and> GetBucket H s' key = Inr a''
                \<and> size_limit s' = size_limit ?s3
                \<and> (\<exists>b'. heap s' a'' = Some b' \<and> length (bucket_map b') \<noteq> size_limit s')
                \<and> (\<forall>k. Find H s' k = Find H ?s3 k)"
            using IH[OF rec] sp(1) Inr by (simp add: loop_post_def)
          then show ?thesis using sp(2,3) by (auto split: sum.splits)
        qed
      qed
    qed
  qed
qed

lemma ex_hash_inv: "eh_inv ex_hash"
  by (simp add: eh_inv_def ex_hash_def)

lemma Insert_not_full:
  assumes "eh_inv s" and "GetBucket H s key = Inr a" and "heap s a = Some b"
    and "length (bucket_map b) \<noteq> size_limit s"
  shows "Insert H key val s =
     Some (Inr (s\<lparr>heap := (heap s)(a := Some (b\<lparr>bucket_map := AList.update key val (bucket_map b)\<rparr>))\<rparr>))"
  using assms by (simp add: Insert_def Insert_loop.simps)

text \<open>
  Claim C8.  In every state that the constructor, \<open>Insert\<close> and \<open>Remove\<close> can have
  produced, once \<open>Insert key val\<close> has returned, \<open>Find key\<close> gives \<open>val\<close> and
  \<open>Find\<close> of every other key gives what it gave before, however many bucket splits and
  directory doublings the call went through; the state reached is again such a state.
\<close>

theorem Insert_correct:
  assumes "eh_inv s" and "Insert H key val s = Some (Inr s')"
  shows "Find H s' key = Inr (Some val)
       \<and> (\<forall>k'. k' \<noteq> key \<longrightarrow> Find H s' k' = Find H s k')
       \<and> eh_inv s'"
proof -
  have gb: "GetBucket H s key = Inr (bucket_directory s ! take_bit (global_depth s) (H key))"
    (is "_ = Inr ?a")
    by (rule GetBucket_inv(1)[OF assms(1)])
  obtain s1 a1 where l: "Insert_loop H key s ?a = Some (Inr (s1, a1))"
    using assms(2) gb by (auto simp: Insert_def split: option.splits sum.splits)
  have c: "eh_inv s1 \<and> GetBucket H s1 key = Inr a1 \<and> (\<forall>k. Find H s1 k = Find H s k)"
    using Insert_loop_correct[OF l] assms(1) gb by (simp add: loop_post_def)
  then have inv1: "eh_inv s1" and g1: "GetBucket H s1 key = Inr a1"
    and f1: "\<And>k. Find H s1 k = Find H s k" by simp_all
  have a1: "a1 = bucket_directory s1 ! take_bit (global_depth s1) (H key)"
    using GetBucket_inv(1)[OF inv1, of H key] g1 by simp
  have a1_in: "a1 \<in> set (bucket_directory s1)"
    using GetBucket_inv(3)[OF inv1, of H key] a1 by simp
  obtain b1 where b1: "heap s1 a1 = Some b1"
    using inv1 a1_in unfolding eh_inv_def by blast
  let ?b' = "b1\<lparr>bucket_map := AList.update key val (bucket_map b1)\<rparr>"
  have s': "s' = s1\<lparr>heap := (heap s1)(a1 := Some ?b')\<rparr>"
    using assms(2) gb l b1 by (simp add: Insert_def)
  have d1: "distinct (map fst (bucket_map b1))"
    by (rule eh_inv_slot(2)[OF inv1 a1_in b1])
  have inv': "eh_inv s'"
    unfolding s' using inv1 b1 d1
    by (intro eh_inv_heap_update) (auto simp: distinct_update)
  have fk: "Find H s' k = (if k = key then Inr (Some val) else Find H s1 k)" for k
  proof -
    let ?ak = "bucket_directory s1 ! take_bit (global_depth s1) (H k)"
    obtain c where c: "heap s1 ?ak = Some c" and fc: "Find H s1 k = Inr (map_of (bucket_map c) k)"
      using Find_inv[OF inv1, of H k] by blast
    have g': "GetBucket H s' k = Inr ?ak"
      using GetBucket_inv(1)[OF inv', of H k] by (simp add: s')
    show ?thesis
    proof (cases "?ak = a1")
      case True
      then have "c = b1" using b1 c by simp
      then show ?thesis using True fc g'
        by (simp add: Find_def s' update_conv')
    next
      case False
      then have "k \<noteq> key" using a1 by auto
      then show ?thesis using False fc g' c by (simp add: Find_def s')
    qed
  qed
  show ?thesis using fk f1 inv' by simp
qed

text \<open>
  On the table whose single bucket holds the keys 0 and 2, inserting key 4 splits twice
  and doubles the directory twice.
\<close>

theorem Insert_correct_witness:
  "eh_inv ex_hash
   \<and> (\<exists>s'. Insert (\<lambda>k. k) 4 44 ex_hash = Some (Inr s') \<and> global_depth s' = 2
         \<and> Find (\<lambda>k. k) s' 4 = Inr (Some 44)
         \<and> Find (\<lambda>k. k) s' 0 = Inr (Some 10) \<and> Find (\<lambda>k. k) s' 2 = Inr (Some 12)
         \<and> Find (\<lambda>k. k) s' 6 = Inr None)"
proof -
  obtain s' where ins: "Insert (\<lambda>k. k) 4 44 ex_hash = Some (Inr s')" and gd: "global_depth s' = 2"
    by (simp add: Insert_def Insert_loop.simps GetBucket_def GetBucketIndex_def ex_hash_def
      split_bucket_def double_directory_def retarget_def Let_def upt_rec)
  have old: "Find (\<lambda>k. k) ex_hash 0 = Inr (Some 10)" "Find (\<lambda>k. k) ex_hash 2 = Inr (Some 12)"
    "Find (\<lambda>k. k) ex_hash 6 = Inr None"
    by (simp_all add: Find_def GetBucket_def GetBucketIndex_def ex_hash_def)
  have "Find (\<lambda>k. k) s' 4 = Inr (Some 44)
       \<and> (\<forall>k'. k' \<noteq> 4 \<longrightarrow> Find (\<lambda>k. k) s' k' = Find (\<lambda>k. k) ex_hash k')"
    using Insert_correct[OF ex_hash_inv ins] by simp
  then show ?thesis using ins gd old ex_hash_inv by auto
qed

text \<open>
  Claim C9.  In every such state \<open>Remove key\<close> returns true exactly when \<open>Find key\<close>
  finds a value; afterwards \<open>Find key\<close> finds none and \<open>Find\<close> of every other key is
  unchanged; the directory, the global depth and the set and depths of the buckets stay
  as they were.
\<close>

theorem Remove_correct:
  assumes "eh_inv s"
  shows "\<exists>r s'. Remove H s key = Inr (r, s')
           \<and> (r \<longleftrightarrow> (\<exists>v. Find H s key = Inr (Some v)))
           \<and> Find H s' key = Inr None
           \<and> (\<forall>k'. k' \<noteq> key \<longrightarrow> Find H s' k' = Find H s k')
           \<and> bucket_directory s' = bucket_directory s
           \<and> global_depth s' = global_depth s
           \<and> (\<forall>a. map_option local_depth (heap s' a) = map_option local_depth (heap s a))
           \<and> eh_inv s'"
proof -
  let ?a = "bucket_directory s ! take_bit (global_depth s) (H key)"
  obtain b where b: "heap s ?a = Some b" and f: "Find H s key = Inr (map_of (bucket_map b) key)"
    using Find_inv[OF assms, of H key] by blast
  have gb: "GetBucket H s key = Inr ?a" by (rule GetBucket_inv(1)[OF assms])
  show ?thesis
  proof (cases "map_of (bucket_map b) key")
    case None
    then have "Remove H s key = Inr (False, s)"
      by (simp add: Remove_def gb b)
    then show ?thesis using None f assms
      by (intro exI[of _ False] exI[of _ s]) simp
  next
    case (Some v)
    let ?b' = "b\<lparr>bucket_map := AList.delete key (bucket_map b)\<rparr>"
    let ?s' = "s\<lparr>heap := (heap s)(?a := Some ?b')\<rparr>"
    have r: "Remove H s key = Inr (True, ?s')"
      using Some by (simp add: Remove_def gb b)
    have d: "distinct (map fst (bucket_map b))"
      by (rule eh_inv_slot(2)[OF assms GetBucket_inv(3)[OF assms, of H key] b])
    have inv': "eh_inv ?s'"
      using assms b d by (intro eh_inv_heap_update) (auto simp: distinct_delete)
    have fk: "Find H ?s' k' = (if k' = key then Inr None else Find H s k')" for k'
    proof -
      let ?a' = "bucket_directory s ! take_bit (global_depth s) (H k')"
      obtain c where c: "heap s ?a' = Some c" and fc: "Find H s k' = Inr (map_of (bucket_map c) k')"
        using Find_inv[OF assms, of H k'] by blast
      have g': "GetBucket H ?s' k' = Inr ?a'"
        using GetBucket_inv(1)[OF inv', of H k'] by simp
      show ?thesis
      proof (cases "?a' = ?a")
        case True
        then have "c = b" using b c by simp
        then show ?thesis using True fc g'
          by (simp add: Find_def delete_conv')
      next
        case False
        then have ne: "k' \<noteq> key" by auto
        show ?thesis using False fc g' c ne by (simp add: Find_def)
      qed
    qed
    have ld: "\<forall>a. map_option local_depth (heap ?s' a) = map_option local_depth (heap s a)"
      using b by auto
    show ?thesis
      using r f Some fk inv' ld by (intro exI[of _ True] exI[of _ ?s']) simp
  qed
qed

theorem Remove_correct_witness:
  "eh_inv ex_hash
   \<and> (\<exists>s'. Remove (\<lambda>k. k) ex_hash 2 = Inr (True, s')
         \<and> Find (\<lambda>k. k) s' 2 = Inr None \<and> Find (\<lambda>k. k) s' 0 = Inr (Some 10)
         \<and> bucket_directory s' = [0] \<and> global_depth s' = 0)
   \<and> Remove (\<lambda>k. k) ex_hash 5 = Inr (False, ex_hash)"
proof -
  obtain r s' where rm: "Remove (\<lambda>k. k) ex_hash 2 = Inr (r, s')"
    and post: "Find (\<lambda>k. k) s' 2 = Inr None"
      "\<forall>k'. k' \<noteq> 2 \<longrightarrow> Find (\<lambda>k. k) s' k' = Find (\<lambda>k. k) ex_hash k'"
      "bucket_directory s' = bucket_directory ex_hash" "global_depth s' = global_depth ex_hash"
    using Remove_correct[OF ex_hash_inv, of "\<lambda>k. k" 2] by blast
  have r: "r" using rm
    by (auto simp: Remove_def GetBucket_def GetBucketIndex_def ex_hash_def)
  have old: "Find (\<lambda>k. k) ex_hash 0 = Inr (Some 10)"
    by (simp add: Find_def GetBucket_def GetBucketIndex_def ex_hash_def)
  have absent: "Remove (\<lambda>k. k) ex_hash 5 = Inr (False, ex_hash)"
    by (simp add: Remove_def GetBucket_def GetBucketIndex_def ex_hash_def)
  have "Find (\<lambda>k. k) s' 0 = Inr (Some 10)" using post(2) old by simp
  moreover have "bucket_directory s' = [0]" "global_depth s' = 0"
    using post(3,4) by (simp_all add: ex_hash_def)
  ultimately show ?thesis using rm r post(1) absent ex_hash_inv by auto
qed

section \<open>Internal pages: Lookup\<close>

lemma comparator_less: "comparator a b = - 1 \<longleftrightarrow> a < b"
  by (simp add: comparator_def)

lemma seps_increasing_nth:
  assumes "seps_increasing arr" "1 \<le> i" "i < j" "j < length arr"
  shows "fst (arr ! i) < fst (arr ! j)"
proof -
  have s: "sorted_wrt (<) (map fst (tl arr))"
    using assms(1) by (simp add: seps_increasing_def)
  have "i - 1 < j - 1" "j - 1 < length (map fst (tl arr))"
    using assms by auto
  then have "map fst (tl arr) ! (i - 1) < map fst (tl arr) ! (j - 1)"
    using s sorted_wrt_iff_nth_less by blast
  then show ?thesis using assms by (simp add: nth_tl)
qed

lemma Lookup_loop_bounds:
  assumes "seps_increasing arr" "1 \<le> start" "start \<le> e" "e \<le> length arr"
    "\<forall>j. 1 \<le> j \<and> j < start \<longrightarrow> fst (arr ! j) < key"
    "\<forall>j. e \<le> j \<and> j < length arr \<longrightarrow> key \<le> fst (arr ! j)"
  shows "start \<le> Lookup_loop arr key start e \<and> Lookup_loop arr key start e \<le> e
     \<and> (\<forall>j. 1 \<le> j \<and> j < Lookup_loop arr key start e \<longrightarrow> fst (arr ! j) < key)
     \<and> (\<forall>j. Lookup_loop arr key start e \<le> j \<and> j < length arr \<longrightarrow> key \<le> fst (arr ! j))"
  using assms
proof (induction arr key start e rule: Lookup_loop.induct)
  case (1 arr key start e)
  show ?case
  proof (cases "start < e")
    case False
    then have "Lookup_loop arr key start e = start"
      by (subst Lookup_loop.simps) simp
    moreover have "start = e" using False "1.prems" by simp
    ultimately show ?thesis using "1.prems" by simp
  next
    case True
    define mid where "mid = start + (e - start) div 2"
    have mid: "start \<le> mid" "mid < e" using True by (auto simp: mid_def)
    show ?thesis
    proof (cases "fst (arr ! mid) < key")
      case less: True
      have lo: "\<forall>j. 1 \<le> j \<and> j < mid + 1 \<longrightarrow> fst (arr ! j) < key"
      proof (intro allI impI)
        fix j assume j: "1 \<le> j \<and> j < mid + 1"
        show "fst (arr ! j) < key"
        proof (cases "j = mid")
          case True then show ?thesis using less by simp
        next
          case False
          then have "fst (arr ! j) < fst (arr ! mid)"
            using j mid "1.prems" by (intro seps_increasing_nth) auto
          then show ?thesis using less by simp
        qed
      qed
      have eq: "Lookup_loop arr key start e = Lookup_loop arr key (mid + 1) e"
        using True less by (subst Lookup_loop.simps) (simp add: mid_def comparator_less)
      have "mid + 1 \<le> Lookup_loop arr key (mid + 1) e \<and> Lookup_loop arr key (mid + 1) e \<le> e
        \<and> (\<forall>j. 1 \<le> j \<and> j < Lookup_loop arr key (mid + 1) e \<longrightarrow> fst (arr ! j) < key)
        \<and> (\<forall>j. Lookup_loop arr key (mid + 1) e \<le> j \<and> j < length arr \<longrightarrow> key \<le> fst (arr ! j))"
        using "1.IH"(1)[OF True mid_def] less "1.prems" mid lo
        by (simp add: comparator_less)
      then show ?thesis using eq mid by auto
    next
      case nless: False
      have hi: "\<forall>j. mid \<le> j \<and> j < length arr \<longrightarrow> key \<le> fst (arr ! j)"
      proof (intro allI impI)
        fix j assume j: "mid \<le> j \<and> j < length arr"
        show "key \<le> fst (arr ! j)"
        proof (cases "j = mid")
          case True then show ?thesis using nless by simp
        next
          case False
          then have "fst (arr ! mid) < fst (arr ! j)"
            using j mid "1.prems" by (intro seps_increasing_nth) auto
          then show ?thesis using nless by simp
        qed
      qed
      have eq: "Lookup_loop arr key start e = Lookup_loop arr key start mid"
        using True nless by (subst Lookup_loop.simps) (simp add: mid_def comparator_less)
      have "start \<le> Lookup_loop arr key start mid \<and> Lookup_loop arr key start mid \<le> mid
        \<and> (\<forall>j. 1 \<le> j \<and> j < Lookup_loop arr key start mid \<longrightarrow> fst (arr ! j) < key)
        \<and> (\<forall>j. Lookup_loop arr key start mid \<le> j \<and> j < length arr \<longrightarrow> key \<le> fst (arr ! j))"
        using "1.IH"(2)[OF True mid_def] nless "1.prems" mid hi
        by (simp add: comparator_less)
      then show ?thesis using eq mid by auto
    qed
  qed
qed

text \<open>
  Claim C3, as the code has it.  On an internal page with at least one entry whose
  separators strictly increase, \<open>Lookup\<close> returns the child \<open>array[i-1].second\<close>, where
  \<open>i\<close> is the smallest index in \<open>[1..size)\<close> with \<open>key \<le> array[i].first\<close> (and
  \<open>i = size\<close> when there is none): every separator before \<open>i\<close> is below the key.  In
  particular a key equal to the separator at index \<open>j\<close> descends into child \<open>j - 1\<close>.
\<close>

theorem Internal_Lookup_lower_bound:
  assumes "seps_increasing (internal_array p)" and "internal_array p \<noteq> []"
  shows "(\<exists>i. 1 \<le> i \<and> i \<le> length (internal_array p)
            \<and> Internal_Lookup p key = Inr (snd (internal_array p ! (i - 1)))
            \<and> (\<forall>j. 1 \<le> j \<and> j < i \<longrightarrow> fst (internal_array p ! j) < key)
            \<and> (i < length (internal_array p) \<longrightarrow> key \<le> fst (internal_array p ! i)))
       \<and> (\<forall>j. 1 \<le> j \<and> j < length (internal_array p) \<and> key = fst (internal_array p ! j)
              \<longrightarrow> Internal_Lookup p key = Inr (snd (internal_array p ! (j - 1))))"
proof -
  let ?arr = "internal_array p"
  let ?i = "Lookup_loop ?arr key 1 (length ?arr)"
  have len: "1 \<le> length ?arr" using assms(2) by (cases ?arr) auto
  have b: "1 \<le> ?i \<and> ?i \<le> length ?arr
     \<and> (\<forall>j. 1 \<le> j \<and> j < ?i \<longrightarrow> fst (?arr ! j) < key)
     \<and> (\<forall>j. ?i \<le> j \<and> j < length ?arr \<longrightarrow> key \<le> fst (?arr ! j))"
  proof -
    have i: "\<forall>j. 1 \<le> j \<and> j < (1::nat) \<longrightarrow> fst (?arr ! j) < key" by auto
    have f: "\<forall>j. length ?arr \<le> j \<and> j < length ?arr \<longrightarrow> key \<le> fst (?arr ! j)" by auto
    show ?thesis
      by (rule Lookup_loop_bounds[OF assms(1) order_refl len order_refl i f])
  qed
  have r: "Internal_Lookup p key = Inr (snd (?arr ! (?i - 1)))"
    using assms(2) by (simp add: Internal_Lookup_def Let_def)
  have first: "\<exists>i. 1 \<le> i \<and> i \<le> length ?arr
            \<and> Internal_Lookup p key = Inr (snd (?arr ! (i - 1)))
            \<and> (\<forall>j. 1 \<le> j \<and> j < i \<longrightarrow> fst (?arr ! j) < key)
            \<and> (i < length ?arr \<longrightarrow> key \<le> fst (?arr ! i))"
    using b r by (intro exI[of _ ?i]) auto
  have second: "\<forall>j. 1 \<le> j \<and> j < length ?arr \<and> key = fst (?arr ! j)
              \<longrightarrow> Internal_Lookup p key = Inr (snd (?arr ! (j - 1)))"
  proof (intro allI impI)
    fix j assume j: "1 \<le> j \<and> j < length ?arr \<and> key = fst (?arr ! j)"
    have "\<not> j < ?i" using b j by auto
    moreover have "\<not> ?i < j"
    proof
      assume lt: "?i < j"
      then have "fst (?arr ! ?i) < fst (?arr ! j)"
        using b j assms(1) by (intro seps_increasing_nth) auto
      moreover have "key \<le> fst (?arr ! ?i)" using b lt j by auto
      ultimately show False using j by simp
    qed
    ultimately have "?i = j" by simp
    then show "Internal_Lookup p key = Inr (snd (?arr ! (j - 1)))" using r by simp
  qed
  show ?thesis using first second by blast
qed

theorem Internal_Lookup_lower_bound_witness:
  "seps_increasing (internal_array ex_internal) \<and> internal_array ex_internal \<noteq> []
   \<and> Internal_Lookup ex_internal 5 = Inr (snd (internal_array ex_internal ! (1 - 1)))
   \<and> Internal_Lookup ex_internal 5 = Inr 10
   \<and> Internal_Lookup ex_internal 7 = Inr 11
   \<and> Internal_Lookup ex_internal 9 = Inr 11
   \<and> Internal_Lookup ex_internal 10 = Inr 12"
proof -
  have h1: "seps_increasing (internal_array ex_internal)"
    by (simp add: seps_increasing_def ex_internal_def)
  have h2: "internal_array ex_internal \<noteq> []"
    by (simp add: ex_internal_def)
  have "1 \<le> (1::nat) \<and> 1 < length (internal_array ex_internal)
      \<and> 5 = fst (internal_array ex_internal ! 1)"
    by (simp add: ex_internal_def)
  then have "Internal_Lookup ex_internal 5 = Inr (snd (internal_array ex_internal ! (1 - 1)))"
    using Internal_Lookup_lower_bound[OF h1 h2, of 5] by blast
  moreover have "Internal_Lookup ex_internal 7 = Inr 11" "Internal_Lookup ex_internal 9 = Inr 11"
    "Internal_Lookup ex_internal 10 = Inr 12"
    by (simp_all add: Internal_Lookup_def ex_internal_def Lookup_loop.simps comparator_def)
  ultimately show ?thesis using h1 h2 by (simp add: ex_internal_def)
qed

text \<open>
  The claim as stated asks for the smallest \<open>i\<close> with \<open>key < array[i].first\<close>, so that a
  key equal to the separator at index \<open>j\<close> goes to child \<open>j\<close>.  On the page with
  separators 5 and 9 the key 5 equals the separator at index 1 and the next separator is
  above it, yet \<open>Lookup\<close> returns child 0 (page 10), not child 1 (page 11).
\<close>

theorem Internal_Lookup_equal_key_counterexample:
  "seps_increasing (internal_array ex_internal)
   \<and> fst (internal_array ex_internal ! 1) = 5
   \<and> 5 < fst (internal_array ex_internal ! 2)
   \<and> Internal_Lookup ex_internal 5 = Inr 10
   \<and> Internal_Lookup ex_internal 5 \<noteq> Inr (snd (internal_array ex_internal ! 1))"
  by (simp add: seps_increasing_def Internal_Lookup_def ex_internal_def Lookup_loop.simps comparator_def)

section \<open>Lock manager: return values of the lock routines\<close>

text \<open>
  Claim C5.  A lock routine that changes the state of the calling transaction changes it
  to ABORTED and returns false, and a true return leaves the state as it was with the
  record in the requested lock set.  \<open>LockShared\<close> and \<open>LockExclusive\<close> return false
  exactly on the two branches that abort: the two-phase test and the timed-out wait.
  \<open>LockUpgrade\<close> returns only false: on the two-phase test, which aborts, and when the
  record has no entry or the transaction is not a holder of a shared entry, which leave
  the transaction as it is.  Past these tests the nested \<open>LockExclusive\<close> locks the
  mutex that \<open>LockUpgrade\<close> holds, so the call does not return and its \<open>return true\<close>
  is never reached.
\<close>

theorem lock_routines_abort_returns_false:
  "(LockShared status txn rid lm = (ret, txn', lm') \<longrightarrow>
      (txn_state txn' \<noteq> txn_state txn \<longrightarrow> txn_state txn' = ABORTED \<and> \<not> ret)
      \<and> (\<not> ret \<longrightarrow> txn_state txn' = ABORTED)
      \<and> (ret \<longrightarrow> txn_state txn' = txn_state txn \<and> rid \<in> shared_lock_set txn'))
   \<and> (LockExclusive status txn rid lm = (ret, txn', lm') \<longrightarrow>
      (txn_state txn' \<noteq> txn_state txn \<longrightarrow> txn_state txn' = ABORTED \<and> \<not> ret)
      \<and> (\<not> ret \<longrightarrow> txn_state txn' = ABORTED)
      \<and> (ret \<longrightarrow> txn_state txn' = txn_state txn \<and> rid \<in> exclusive_lock_set txn'))
   \<and> (LockUpgrade status txn rid lm = Some (ret, txn', lm') \<longrightarrow>
      (txn_state txn' \<noteq> txn_state txn \<longrightarrow> txn_state txn' = ABORTED)
      \<and> \<not> ret)"
proof -
  have s: "LockShared status txn rid lm = (ret, txn', lm') \<longrightarrow>
      (txn_state txn' \<noteq> txn_state txn \<longrightarrow> txn_state txn' = ABORTED \<and> \<not> ret)
      \<and> (\<not> ret \<longrightarrow> txn_state txn' = ABORTED)
      \<and> (ret \<longrightarrow> txn_state txn' = txn_state txn \<and> rid \<in> shared_lock_set txn')"
    by (auto simp: LockShared_def Let_def split: if_splits option.splits)
  have x: "LockExclusive status txn rid lm = (ret, txn', lm') \<longrightarrow>
      (txn_state txn' \<noteq> txn_state txn \<longrightarrow> txn_state txn' = ABORTED \<and> \<not> ret)
      \<and> (\<not> ret \<longrightarrow> txn_state txn' = ABORTED)
      \<and> (ret \<longrightarrow> txn_state txn' = txn_state txn \<and> rid \<in> exclusive_lock_set txn')"
    by (auto simp: LockExclusive_def Let_def split: if_splits option.splits)
  have u: "LockUpgrade status txn rid lm = Some (ret, txn', lm') \<longrightarrow>
      (txn_state txn' \<noteq> txn_state txn \<longrightarrow> txn_state txn' = ABORTED) \<and> \<not> ret"
    by (auto simp: LockUpgrade_def LockExclusive_held_def Let_def split: if_splits option.splits)
  show ?thesis using s x u by blast
qed

theorem lock_routines_abort_returns_false_witness:
  "LockShared timeout (ex_txn 3) 7
      \<lparr>strict_2PL = False,
       lock_table = (\<lambda>r. None)(7 := Some \<lparr>wl_state = EXCLUSIVE, wl_granted = {1}, wl_lst = []\<rparr>)\<rparr>
     = (False, (ex_txn 3)\<lparr>txn_state := ABORTED\<rparr>,
        \<lparr>strict_2PL = False,
         lock_table = (\<lambda>r. None)(7 := Some \<lparr>wl_state = EXCLUSIVE, wl_granted = {1},
            wl_lst = [\<lparr>tid = 3, wi_state = SHARED\<rparr>]\<rparr>)\<rparr>)
   \<and> fst (LockShared ready (ex_txn 3) 9 ex_lm)
   \<and> 9 \<in> shared_lock_set (fst (snd (LockShared ready (ex_txn 3) 9 ex_lm)))
   \<and> txn_state (fst (snd (LockShared ready (ex_txn 3) 9 ex_lm))) = GROWING
   \<and> \<not> fst (LockExclusive timeout (ex_txn 3) 7 ex_lm)
   \<and> txn_state (fst (snd (LockExclusive timeout (ex_txn 3) 7 ex_lm))) = ABORTED
   \<and> LockUpgrade ready ((ex_txn 3)\<lparr>txn_state := SHRINKING\<rparr>) 7 ex_lm
        = Some (False, (ex_txn 3)\<lparr>txn_state := ABORTED\<rparr>, ex_lm)
   \<and> LockUpgrade timeout ex_holder 7 ex_lm = None"
proof -
  let ?lmx = "\<lparr>strict_2PL = False,
       lock_table = (\<lambda>r. None)(7 := Some \<lparr>wl_state = EXCLUSIVE, wl_granted = {1}, wl_lst = []\<rparr>)\<rparr>
       :: nat LockManager"
  let ?lmx' = "\<lparr>strict_2PL = False,
         lock_table = (\<lambda>r. None)(7 := Some \<lparr>wl_state = EXCLUSIVE, wl_granted = {1},
            wl_lst = [\<lparr>tid = 3, wi_state = SHARED\<rparr>]\<rparr>)\<rparr> :: nat LockManager"
  have e1: "LockShared timeout (ex_txn 3) 7 ?lmx = (False, (ex_txn 3)\<lparr>txn_state := ABORTED\<rparr>, ?lmx')"
    by (simp add: LockShared_def enqueue_def ex_txn_def Let_def)
  have "txn_state ((ex_txn 3)\<lparr>txn_state := ABORTED\<rparr>) \<noteq> txn_state (ex_txn 3)"
    by (simp add: ex_txn_def)
  then have "txn_state ((ex_txn 3)\<lparr>txn_state := ABORTED\<rparr>) = ABORTED \<and> \<not> False"
    using lock_routines_abort_returns_false
      [of timeout "ex_txn 3" 7 ?lmx False "(ex_txn 3)\<lparr>txn_state := ABORTED\<rparr>" ?lmx'] e1
    by blast
  moreover have "fst (LockShared ready (ex_txn 3) 9 ex_lm)"
    "9 \<in> shared_lock_set (fst (snd (LockShared ready (ex_txn 3) 9 ex_lm)))"
    "txn_state (fst (snd (LockShared ready (ex_txn 3) 9 ex_lm))) = GROWING"
    by (simp_all add: LockShared_def ex_txn_def ex_lm_def WaitList_new_def)
  moreover have "\<not> fst (LockExclusive timeout (ex_txn 3) 7 ex_lm)"
    "txn_state (fst (snd (LockExclusive timeout (ex_txn 3) 7 ex_lm))) = ABORTED"
    by (simp_all add: LockExclusive_def ex_txn_def ex_lm_def enqueue_def Let_def)
  moreover have "LockUpgrade ready ((ex_txn 3)\<lparr>txn_state := SHRINKING\<rparr>) 7 ex_lm
        = Some (False, (ex_txn 3)\<lparr>txn_state := ABORTED\<rparr>, ex_lm)"
    by (simp add: LockUpgrade_def ex_txn_def)
  moreover have "LockUpgrade timeout ex_holder 7 ex_lm = None"
    by (simp add: LockUpgrade_def LockExclusive_held_def ex_holder_def ex_lm_def Let_def)
  ultimately show ?thesis using e1 by simp
qed

text \<open>
  Claim C6, as the code has it.  \<open>LockShared\<close> on a record whose wait list is in SHARED
  mode, by a transaction that is not shrinking, adds the transaction to the granted set
  and returns true at once: it does not wait, and the queue of waiters is neither read nor
  changed.
\<close>

theorem LockShared_shared_entry_grants:
  assumes "txn_state txn \<noteq> SHRINKING" and "lock_table lm rid = Some ptr"
    and "wl_state ptr = SHARED"
  shows "LockShared status txn rid lm =
     (True, txn\<lparr>shared_lock_set := insert rid (shared_lock_set txn)\<rparr>,
      lm\<lparr>lock_table := (lock_table lm)(rid := Some
             (ptr\<lparr>wl_granted := insert (txn_id txn) (wl_granted ptr)\<rparr>))\<rparr>)"
  using assms by (simp add: LockShared_def)

theorem LockShared_shared_entry_grants_witness:
  "txn_state (ex_txn 3) \<noteq> SHRINKING
   \<and> lock_table ex_lm_queue 7 = Some \<lparr>wl_state = SHARED, wl_granted = {1},
        wl_lst = [\<lparr>tid = 2, wi_state = EXCLUSIVE\<rparr>]\<rparr>
   \<and> LockShared ready (ex_txn 3) 7 ex_lm_queue =
     (True, \<lparr>txn_id = 3, txn_state = GROWING, shared_lock_set = {7}, exclusive_lock_set = {}\<rparr>,
      \<lparr>strict_2PL = False,
       lock_table = (\<lambda>r. None)(7 := Some \<lparr>wl_state = SHARED, wl_granted = {1, 3},
          wl_lst = [\<lparr>tid = 2, wi_state = EXCLUSIVE\<rparr>]\<rparr>)\<rparr>)"
proof -
  have h1: "txn_state (ex_txn 3) \<noteq> SHRINKING" by (simp add: ex_txn_def)
  have h2: "lock_table ex_lm_queue 7 = Some \<lparr>wl_state = SHARED, wl_granted = {1},
        wl_lst = [\<lparr>tid = 2, wi_state = EXCLUSIVE\<rparr>]\<rparr>"
    by (simp add: ex_lm_queue_def)
  have h3: "wl_state \<lparr>wl_state = SHARED, wl_granted = {1},
        wl_lst = [\<lparr>tid = 2, wi_state = EXCLUSIVE\<rparr>]\<rparr> = SHARED" by simp
  show ?thesis
    using h1 h2 LockShared_shared_entry_grants[OF h1 h2 h3, of ready]
    by (simp add: ex_txn_def ex_lm_queue_def insert_commute)
qed

text \<open>
  The claim as stated lets the request wait behind a queued exclusive waiter.  With
  transaction 2 queued for the exclusive lock on record 7, \<open>LockShared\<close> of transaction 3
  returns true even when the wait would time out, and transaction 3 is granted while
  transaction 2 stays queued.
\<close>

theorem LockShared_queued_writer_counterexample:
  "fst (LockShared timeout (ex_txn 3) 7 ex_lm_queue)
   \<and> (case lock_table ex_lm_queue 7 of
         Some ptr \<Rightarrow> wl_state ptr = SHARED \<and> wl_lst ptr = [\<lparr>tid = 2, wi_state = EXCLUSIVE\<rparr>]
       | None \<Rightarrow> False)
   \<and> (case lock_table (snd (snd (LockShared timeout (ex_txn 3) 7 ex_lm_queue))) 7 of
         Some ptr \<Rightarrow> 3 \<in> wl_granted ptr \<and> wl_lst ptr = [\<lparr>tid = 2, wi_state = EXCLUSIVE\<rparr>]
       | None \<Rightarrow> False)"
  by (simp add: LockShared_def ex_txn_def ex_lm_queue_def)

section \<open>B+ tree: duplicate keys, leaf splits, AdjustRoot\<close>

lemma insert_entry_present:
  assumes "sorted_wrt (<) (map fst es)" and "map_of es k = Some v"
  shows "insert_entry k v' es = es"
  using assms
proof (induction es)
  case Nil
  then show ?case by simp
next
  case (Cons e es)
  show ?case
  proof (cases "fst e = k")
    case True
    then show ?thesis by simp
  next
    case False
    then have m: "map_of es k = Some v" using Cons.prems(2) by (cases e) (auto split: if_splits)
    then have "k \<in> fst ` set es" by (metis map_of_eq_None_iff option.distinct(1))
    then have "fst e < k" using Cons.prems(1) by auto
    then have "\<not> k < fst e" by simp
    moreover have "insert_entry k v' es = es" using Cons.IH Cons.prems(1) m by simp
    ultimately show ?thesis using False by simp
  qed
qed

lemma descend_leaf:
  assumes "descend t key pid = Some (Inr leaf)"
  shows "\<exists>p. pages t leaf = Some p \<and> IsLeafPage p"
proof -
  have "case y of Inl e \<Rightarrow> True | Inr leaf \<Rightarrow> (\<exists>p. pages t leaf = Some p \<and> IsLeafPage p)"
    if "descend t key pid = Some y" for y
  proof (rule descend.raw_induct[where P = "\<lambda>t key pid y.
       case y of Inl e \<Rightarrow> True | Inr leaf \<Rightarrow> (\<exists>p. pages t leaf = Some p \<and> IsLeafPage p)", OF _ that])
    fix loop :: "('a, 'b) BPlusTree \<Rightarrow> 'a \<Rightarrow> page_id_t \<Rightarrow> (bpt_error + page_id_t) option"
    fix t key pid y
    assume IH: "\<And>t key pid y. loop t key pid = Some y \<Longrightarrow>
       (case y of Inl e \<Rightarrow> True | Inr leaf \<Rightarrow> (\<exists>p. pages t leaf = Some p \<and> IsLeafPage p))"
    assume body: "(case pages t pid of
        None \<Rightarrow> Some (Inl NullPage)
      | Some p \<Rightarrow>
          if IsLeafPage p then Some (Inr pid)
          else (case Internal_Lookup p key of
                  Inl e \<Rightarrow> Some (Inl e)
                | Inr child \<Rightarrow> loop t key child)) = Some y"
    show "case y of Inl e \<Rightarrow> True | Inr leaf \<Rightarrow> (\<exists>p. pages t leaf = Some p \<and> IsLeafPage p)"
      using body
      by (auto split: option.splits if_splits sum.splits dest!: IH)
  qed
  from this[OF assms] show ?thesis by simp
qed

text \<open>
  Claim C7.  Take a tree whose leaves are sorted and within their maximum size, in which
  \<open>GetValue\<close> finds the value \<open>v\<close> under \<open>key\<close>.  Then \<open>Insert\<close> of that key with
  any value returns false and leaves the tree exactly as it was, so that \<open>GetValue\<close>
  still finds \<open>v\<close>.
\<close>

theorem duplicate_insert_rejected:
  assumes "GetValue t key = Some (Inr (Some v))" and "leaves_ok t"
  shows "\<exists>t'. BPT_Insert t key v' = Some (Inr (False, t')) \<and> t' = t
            \<and> GetValue t' key = Some (Inr (Some v))"
proof -
  have ne: "\<not> IsEmpty t"
    using assms(1) by (auto simp: GetValue_def FindLeafPage_def split: if_splits)
  obtain leaf where fl: "FindLeafPage t key = Some (Inr leaf)"
    using assms(1) by (auto simp: GetValue_def split: option.splits sum.splits)
  then have "descend t key (root_page_id t) = Some (Inr leaf)"
    using ne by (simp add: FindLeafPage_def)
  then obtain p where p: "pages t leaf = Some p" and lp: "IsLeafPage p"
    using descend_leaf by blast
  have lk: "map_of (leaf_array p) key = Some v"
    using assms(1) fl p by (simp add: GetValue_def Leaf_Lookup_def)
  have ok: "sorted_wrt (<) (map fst (leaf_array p))" "int (length (leaf_array p)) \<le> max_size p"
    using assms(2) p lp unfolding leaves_ok_def by blast+
  have same: "Leaf_Insert key v' p = p"
    using insert_entry_present[OF ok(1) lk] by (simp add: Leaf_Insert_def)
  have upd: "t\<lparr>pages := (pages t)(leaf := Some p)\<rparr> = t"
    using p by (simp add: fun_upd_idem)
  have "InsertIntoLeaf t key v' = Some (Inr (False, t))"
    using fl p same ok(2) lp upd by (simp add: InsertIntoLeaf_def GetSize_def Let_def)
  then have "BPT_Insert t key v' = Some (Inr (False, t))"
    using ne by (simp add: BPT_Insert_def)
  then show ?thesis using assms(1) by simp
qed

lemma ex_tree2_ok: "leaves_ok ex_tree2"
  by (simp add: leaves_ok_def ex_tree2_def IsLeafPage_def)

lemma ex_tree2_get3: "GetValue ex_tree2 3 = Some (Inr (Some 30))"
  by (simp add: GetValue_def FindLeafPage_def IsEmpty_def INVALID_PAGE_ID_def descend.simps
      ex_tree2_def IsLeafPage_def Internal_Lookup_def Lookup_loop.simps comparator_def Leaf_Lookup_def)

theorem duplicate_insert_rejected_witness:
  "GetValue ex_tree2 3 = Some (Inr (Some 30)) \<and> leaves_ok ex_tree2
   \<and> BPT_Insert ex_tree2 3 99 = Some (Inr (False, ex_tree2))
   \<and> GetValue ex_tree2 2 = Some (Inr (Some 20))
   \<and> BPT_Insert ex_tree2 2 77 = Some (Inr (False, ex_tree2))"
proof -
  have g2: "GetValue ex_tree2 2 = Some (Inr (Some 20))"
    by (simp add: GetValue_def FindLeafPage_def IsEmpty_def INVALID_PAGE_ID_def descend.simps
      ex_tree2_def IsLeafPage_def Internal_Lookup_def Lookup_loop.simps comparator_def Leaf_Lookup_def)
  show ?thesis
    using duplicate_insert_rejected[OF ex_tree2_get3 ex_tree2_ok, of 99]
      duplicate_insert_rejected[OF g2 ex_tree2_ok, of 77] ex_tree2_get3 ex_tree2_ok g2
    by simp
qed

lemma insert_entry_keys:
  "fst ` set (insert_entry k v es) \<subseteq> insert k (fst ` set es)"
  by (induction es) auto

lemma insert_entry_sorted:
  "sorted_wrt (<) (map fst es) \<Longrightarrow> sorted_wrt (<) (map fst (insert_entry k v es))"
proof (induction es)
  case Nil
  then show ?case by simp
next
  case (Cons e es)
  have ih: "sorted_wrt (<) (map fst (insert_entry k v es))"
    using Cons by simp
  have above: "\<forall>x \<in> fst ` set es. fst e < x" using Cons.prems by auto
  show ?case
  proof (cases "fst e = k")
    case True
    then show ?thesis using Cons.prems by simp
  next
    case False
    show ?thesis
    proof (cases "k < fst e")
      case True
      then show ?thesis using Cons.prems False by auto
    next
      case nl: False
      then have "fst e < k" using False by simp
      then have "\<forall>x \<in> insert k (fst ` set es). fst e < x"
        using above by simp
      then have "\<forall>x \<in> fst ` set (insert_entry k v es). fst e < x"
        using insert_entry_keys[of k v es] by blast
      then show ?thesis using ih False nl by auto
    qed
  qed
qed

lemma Split_leaf_result:
  assumes p: "pages t left = Some p" and fresh: "left < next_free_page t"
    and nx: "next_page_id p = INVALID_PAGE_ID \<or> pages t (next_page_id p) \<noteq> None"
  shows "\<exists>t2 l r. Split_leaf t left = Inr (t2, next_free_page t)
     \<and> pages t2 left = Some l \<and> pages t2 (next_free_page t) = Some r
     \<and> leaf_array l = take (length (leaf_array p) div 2) (leaf_array p)
     \<and> leaf_array r = drop (length (leaf_array p) div 2) (leaf_array p)
     \<and> page_type l = page_type p \<and> page_id l = page_id p
     \<and> parent_page_id l = parent_page_id p
     \<and> page_type r = LEAF_PAGE \<and> page_id r = next_free_page t
     \<and> next_free_page t2 = next_free_page t + 1
     \<and> blank_key t2 = blank_key t \<and> internal_slots t2 = internal_slots t
     \<and> header_record t2 = header_record t"
proof (cases "next_page_id p = INVALID_PAGE_ID")
  case True
  then show ?thesis using p fresh
    by (simp add: Split_leaf_def NewPage_def Let_def Leaf_Init_def)
next
  case False
  then obtain q where q: "pages t (next_page_id p) = Some q" using nx by auto
  consider "next_page_id p = left" | "next_page_id p = next_free_page t"
    | "next_page_id p \<noteq> left" "next_page_id p \<noteq> next_free_page t" by blast
  then show ?thesis
  proof cases
    case 1
    then show ?thesis using p fresh False
      by (simp add: Split_leaf_def NewPage_def Let_def Leaf_Init_def)
  next
    case 2
    then show ?thesis using p fresh False
      by (simp add: Split_leaf_def NewPage_def Let_def Leaf_Init_def)
  next
    case 3
    then show ?thesis using p fresh False q
      by (simp add: Split_leaf_def NewPage_def Let_def Leaf_Init_def)
  qed
qed

text \<open>
  Claim C2, as the code has it.  Let \<open>Insert\<close> of a new key reach the sorted leaf
  \<open>L\<close>, which holds no more than its maximum size before the insertion and more than
  that after it.  The leaf is then split into \<open>L\<close> and the newly allocated right leaf
  \<open>R\<close>, both non-empty, which together hold the entries of the overfull leaf in
  order, and \<open>Insert\<close> returns what \<open>InsertIntoParent\<close> returns when it is called
  with \<open>L\<close>, the last key of \<open>L\<close> after the split, and \<open>R\<close>.  That separator is
  the largest key that stays in \<open>L\<close> and is strictly below every key of \<open>R\<close>.
  When \<open>L\<close> is the root, \<open>Insert\<close> returns true and the new root holds exactly
  the pair of \<open>L\<close> and the pair of that separator with \<open>R\<close>.
\<close>

theorem Insert_split_separator:
  assumes fl: "FindLeafPage t key = Some (Inr leaf)" and p: "pages t leaf = Some p"
    and sorted: "sorted_wrt (<) (map fst (leaf_array p))"
    and fits: "int (length (leaf_array p)) \<le> max_size p"
    and over: "int (length (insert_entry key val (leaf_array p))) > max_size p"
    and pos: "0 < max_size p"
    and fresh: "leaf < next_free_page t"
    and nx: "next_page_id p = INVALID_PAGE_ID \<or> pages t (next_page_id p) \<noteq> None"
  shows "\<exists>t2 l r.
       Split_leaf (t\<lparr>pages := (pages t)(leaf := Some (Leaf_Insert key val p))\<rparr>) leaf
          = Inr (t2, next_free_page t)
     \<and> pages t2 leaf = Some l \<and> pages t2 (next_free_page t) = Some r
     \<and> leaf_array l @ leaf_array r = insert_entry key val (leaf_array p)
     \<and> leaf_array l \<noteq> [] \<and> leaf_array r \<noteq> []
     \<and> (\<forall>e \<in> set (leaf_array r). fst (last (leaf_array l)) < fst e)
     \<and> BPT_Insert t key val =
          (case InsertIntoParent t2 leaf (fst (last (leaf_array l))) (next_free_page t) of
             None \<Rightarrow> None
           | Some (Inl e) \<Rightarrow> Some (Inl e)
           | Some (Inr t3) \<Rightarrow> Some (Inr (True, t3)))
     \<and> (parent_page_id p = INVALID_PAGE_ID \<longrightarrow>
          (\<exists>t3. BPT_Insert t key val = Some (Inr (True, t3))
             \<and> internal_array_at t3 (root_page_id t3)
                  = [(blank_key t, page_id p), (fst (last (leaf_array l)), next_free_page t)]
             \<and> leaf_array_at t3 leaf = leaf_array l
             \<and> leaf_array_at t3 (next_free_page t) = leaf_array r))"
proof -
  define es where "es = insert_entry key val (leaf_array p)"
  define p' where "p' = Leaf_Insert key val p"
  define t1 where "t1 = t\<lparr>pages := (pages t)(leaf := Some p')\<rparr>"
  define nf where "nf = next_free_page t"
  have ne: "\<not> IsEmpty t"
    using fl by (auto simp: FindLeafPage_def split: if_splits)
  then have "descend t key (root_page_id t) = Some (Inr leaf)"
    using fl by (simp add: FindLeafPage_def)
  then have lp: "IsLeafPage p" using descend_leaf p by fastforce
  have p'f: "leaf_array p' = es" "page_type p' = page_type p" "max_size p' = max_size p"
    "next_page_id p' = next_page_id p" "parent_page_id p' = parent_page_id p"
    "page_id p' = page_id p"
    by (simp_all add: p'_def es_def Leaf_Insert_def)
  have lp': "IsLeafPage p'" using lp by (simp add: IsLeafPage_def p'f)
  have t1f: "pages t1 leaf = Some p'" "next_free_page t1 = nf" "blank_key t1 = blank_key t"
    "internal_slots t1 = internal_slots t"
    by (simp_all add: t1_def nf_def)
  have nx1: "next_page_id p' = INVALID_PAGE_ID \<or> pages t1 (next_page_id p') \<noteq> None"
    using nx by (auto simp: t1_def p'f)
  have fresh1: "leaf < next_free_page t1" using fresh by (simp add: t1f nf_def)
  obtain t2 l r where sp: "Split_leaf t1 leaf = Inr (t2, nf)"
    and l: "pages t2 leaf = Some l" and r: "pages t2 nf = Some r"
    and al: "leaf_array l = take (length es div 2) es"
    and ar: "leaf_array r = drop (length es div 2) es"
    and lf: "page_type l = page_type p" "page_id l = page_id p"
      "parent_page_id l = parent_page_id p"
    and rf: "page_id r = nf"
    and t2f: "next_free_page t2 = nf + 1" "blank_key t2 = blank_key t"
      "internal_slots t2 = internal_slots t"
    using Split_leaf_result[OF t1f(1) fresh1 nx1] by (auto simp: t1f p'f)
  have len: "2 \<le> length es" using over pos by (simp add: es_def)
  have half: "0 < length es div 2" "length es div 2 < length es" using len by auto
  have esne: "es \<noteq> []" using len by auto
  have lne: "leaf_array l \<noteq> []" using half esne by (simp add: al)
  have rne: "leaf_array r \<noteq> []" using half by (simp add: ar)
  have app: "leaf_array l @ leaf_array r = es" by (simp add: al ar)
  have ll: "IsLeafPage l" using lp by (simp add: IsLeafPage_def lf)
  have "nat (int (GetSize l) - 1) = length (leaf_array l) - 1"
    using ll by (simp add: GetSize_def)
  then have key_at: "Leaf_KeyAt l (int (GetSize l) - 1) = Inr (fst (last (leaf_array l)))"
    using lne ll by (simp add: Leaf_KeyAt_def GetSize_def last_conv_nth)
  have "sorted_wrt (<) (map fst es)"
    using sorted by (simp add: es_def insert_entry_sorted)
  then have "sorted_wrt (<) (map fst (leaf_array l) @ map fst (leaf_array r))"
    using app by (metis map_append)
  then have cross: "\<forall>x \<in> set (leaf_array l). \<forall>y \<in> set (leaf_array r). fst x < fst y"
    by (simp add: sorted_wrt_append)
  have "last (leaf_array l) \<in> set (leaf_array l)"
    using lne by simp
  then have below: "\<forall>e \<in> set (leaf_array r). fst (last (leaf_array l)) < fst e"
    using cross by blast
  have grew: "length (leaf_array p) \<noteq> length es" using fits over by (simp add: es_def)
  have over': "int (GetSize p') > max_size p'"
    using over lp' by (simp add: GetSize_def p'f es_def)
  have sizes: "GetSize p \<noteq> GetSize p'"
    using grew lp lp' by (simp add: GetSize_def p'f)
  have leaf_eq: "InsertIntoLeaf t key val =
          (case InsertIntoParent t2 leaf (fst (last (leaf_array l))) nf of
             None \<Rightarrow> None
           | Some (Inl e) \<Rightarrow> Some (Inl e)
           | Some (Inr t3) \<Rightarrow> Some (Inr (True, t3)))"
    using fl p over' sizes sp l key_at
    by (simp add: InsertIntoLeaf_def Let_def p'_def[symmetric] t1_def[symmetric]
          split: option.splits sum.splits)
  have ins_eq: "BPT_Insert t key val =
          (case InsertIntoParent t2 leaf (fst (last (leaf_array l))) nf of
             None \<Rightarrow> None
           | Some (Inl e) \<Rightarrow> Some (Inl e)
           | Some (Inr t3) \<Rightarrow> Some (Inr (True, t3)))"
    using ne leaf_eq by (simp add: BPT_Insert_def)
  have root: "\<exists>t3. BPT_Insert t key val = Some (Inr (True, t3))
             \<and> internal_array_at t3 (root_page_id t3)
                  = [(blank_key t, page_id p), (fst (last (leaf_array l)), nf)]
             \<and> leaf_array_at t3 leaf = leaf_array l
             \<and> leaf_array_at t3 nf = leaf_array r"
    if rt: "parent_page_id p = INVALID_PAGE_ID"
  proof -
    have d: "leaf \<noteq> nf + 1" "nf \<noteq> nf + 1" "leaf \<noteq> nf" using fresh by (simp_all add: nf_def)
    have "\<exists>t3. InsertIntoParent t2 leaf (fst (last (leaf_array l))) nf = Some (Inr t3)
             \<and> internal_array_at t3 (root_page_id t3)
                  = [(blank_key t, page_id p), (fst (last (leaf_array l)), nf)]
             \<and> leaf_array_at t3 leaf = leaf_array l
             \<and> leaf_array_at t3 nf = leaf_array r"
      using l r rt lf rf t2f d
      by (subst InsertIntoParent.simps)
         (simp add: NewPage_def Let_def Internal_PopulateNewRoot_def Internal_Init_def
            UpdateRootPageId_def internal_array_at_def leaf_array_at_def)
    then show ?thesis using ins_eq by auto
  qed
  show ?thesis
    using sp l r app lne rne below ins_eq root
    unfolding t1_def p'_def es_def nf_def by blast
qed

theorem Insert_split_separator_witness:
  "FindLeafPage (ex_tree [(1, 10), (2, 20), (3, 30), (4, 40)]) 5 = Some (Inr 1)
   \<and> pages (ex_tree [(1, 10), (2, 20), (3, 30), (4, 40)]) 1
        = Some (ex_leaf [(1, 10), (2, 20), (3, 30), (4, 40)])
   \<and> sorted_wrt (<) (map fst (leaf_array (ex_leaf [(1, 10), (2, 20), (3, 30), (4, 40)])))
   \<and> int (length (leaf_array (ex_leaf [(1, 10), (2, 20), (3, 30), (4, 40)])))
        \<le> max_size (ex_leaf [(1, 10), (2, 20), (3, 30), (4, 40)])
   \<and> int (length (insert_entry 5 50 (leaf_array (ex_leaf [(1, 10), (2, 20), (3, 30), (4, 40)]))))
        > max_size (ex_leaf [(1, 10), (2, 20), (3, 30), (4, 40)])
   \<and> 1 < next_free_page (ex_tree [(1, 10), (2, 20), (3, 30), (4, 40)])
   \<and> next_page_id (ex_leaf [(1, 10), (2, 20), (3, 30), (4, 40)]) = INVALID_PAGE_ID
   \<and> (\<exists>t3. BPT_Insert (ex_tree [(1, 10), (2, 20), (3, 30), (4, 40)]) 5 50 = Some (Inr (True, t3))
          \<and> internal_array_at t3 (root_page_id t3) = [(0, 1), (2, 2)]
          \<and> leaf_array_at t3 1 = [(1, 10), (2, 20)]
          \<and> leaf_array_at t3 2 = [(3, 30), (4, 40), (5, 50)])"
proof -
  let ?es = "[(1, 10), (2, 20), (3, 30), (4::nat, 40::nat)]"
  have h1: "FindLeafPage (ex_tree ?es) 5 = Some (Inr 1)"
    by (simp add: FindLeafPage_def IsEmpty_def descend.simps ex_tree_def ex_leaf_def
        IsLeafPage_def INVALID_PAGE_ID_def)
  have h2: "pages (ex_tree ?es) 1 = Some (ex_leaf ?es)" by (simp add: ex_tree_def)
  have h3: "sorted_wrt (<) (map fst (leaf_array (ex_leaf ?es)))" by (simp add: ex_leaf_def)
  have h4: "int (length (leaf_array (ex_leaf ?es))) \<le> max_size (ex_leaf ?es)"
    by (simp add: ex_leaf_def)
  have h5: "int (length (insert_entry 5 50 (leaf_array (ex_leaf ?es)))) > max_size (ex_leaf ?es)"
    by (simp add: ex_leaf_def)
  have h6: "0 < max_size (ex_leaf ?es)" by (simp add: ex_leaf_def)
  have h7: "1 < next_free_page (ex_tree ?es)" by (simp add: ex_tree_def)
  have h8: "next_page_id (ex_leaf ?es) = INVALID_PAGE_ID"
    by (simp add: ex_leaf_def INVALID_PAGE_ID_def)
  have h8': "next_page_id (ex_leaf ?es) = INVALID_PAGE_ID
      \<or> pages (ex_tree ?es) (next_page_id (ex_leaf ?es)) \<noteq> None"
    using h8 by simp
  have root: "parent_page_id (ex_leaf ?es) = INVALID_PAGE_ID"
    by (simp add: ex_leaf_def INVALID_PAGE_ID_def)
  have halves: "case Split_leaf ((ex_tree ?es)\<lparr>pages := (pages (ex_tree ?es))
          (1 := Some (Leaf_Insert 5 50 (ex_leaf ?es)))\<rparr>) 1 of
        Inl e \<Rightarrow> False
      | Inr (t2, right) \<Rightarrow> leaf_array_at t2 1 = [(1, 10), (2, 20)]
          \<and> leaf_array_at t2 2 = [(3, 30), (4, 40), (5, 50)]"
    by (simp add: Split_leaf_def NewPage_def Let_def Leaf_Init_def Leaf_Insert_def
        ex_tree_def ex_leaf_def INVALID_PAGE_ID_def leaf_array_at_def)
  obtain t2 l r where
    sp: "Split_leaf ((ex_tree ?es)\<lparr>pages := (pages (ex_tree ?es))
          (1 := Some (Leaf_Insert 5 50 (ex_leaf ?es)))\<rparr>) 1 = Inr (t2, next_free_page (ex_tree ?es))"
    and l: "pages t2 1 = Some l" and r: "pages t2 (next_free_page (ex_tree ?es)) = Some r"
    and fin: "parent_page_id (ex_leaf ?es) = INVALID_PAGE_ID \<longrightarrow>
          (\<exists>t3. BPT_Insert (ex_tree ?es) 5 50 = Some (Inr (True, t3))
             \<and> internal_array_at t3 (root_page_id t3)
                  = [(blank_key (ex_tree ?es), page_id (ex_leaf ?es)),
                     (fst (last (leaf_array l)), next_free_page (ex_tree ?es))]
             \<and> leaf_array_at t3 1 = leaf_array l
             \<and> leaf_array_at t3 (next_free_page (ex_tree ?es)) = leaf_array r)"
    using Insert_split_separator[OF h1 h2 h3 h4 h5 h6 h7 h8'] by blast
  have nf: "next_free_page (ex_tree ?es) = 2" by (simp add: ex_tree_def)
  have "leaf_array l = [(1, 10), (2, 20)]" "leaf_array r = [(3, 30), (4, 40), (5, 50)]"
    using halves sp l r[unfolded nf] by (simp_all add: leaf_array_at_def)
  then have "\<exists>t3. BPT_Insert (ex_tree ?es) 5 50 = Some (Inr (True, t3))
          \<and> internal_array_at t3 (root_page_id t3) = [(0, 1), (2, 2)]
          \<and> leaf_array_at t3 1 = [(1, 10), (2, 20)]
          \<and> leaf_array_at t3 2 = [(3, 30), (4, 40), (5, 50)]"
    using fin root nf by (simp add: ex_tree_def ex_leaf_def)
  then show ?thesis using h1 h2 h3 h4 h5 h7 h8 by blast
qed

text \<open>
  The claim as stated takes the separator to be the first key of \<open>R\<close>.  Inserting key 5
  into the full root leaf \<open>[1, 2, 3, 4]\<close> splits it into \<open>[1, 2]\<close> and \<open>[3, 4, 5]\<close>; the
  key passed to \<open>InsertIntoParent\<close>, and stored in the new root, is 2, while the first
  key of \<open>R\<close> is 3.
\<close>

theorem Insert_split_separator_counterexample:
  "(case Split_leaf (ex_tree [(1, 10), (2, 20), (3, 30), (4, 40), (5, 50)]) 1 of
      Inl e \<Rightarrow> False
    | Inr (t2, right) \<Rightarrow>
        right = 2 \<and> map fst (leaf_array_at t2 1) = [1, 2]
        \<and> map fst (leaf_array_at t2 right) = [3, 4, 5]
        \<and> BPT_Insert (ex_tree [(1, 10), (2, 20), (3, 30), (4, 40)]) 5 50 =
            (case InsertIntoParent t2 1 2 right of
               None \<Rightarrow> None
             | Some (Inl e) \<Rightarrow> Some (Inl e)
             | Some (Inr t3) \<Rightarrow> Some (Inr (True, t3))))
   \<and> (case BPT_Insert (ex_tree [(1, 10), (2, 20), (3, 30), (4, 40)]) 5 50 of
         Some (Inr (ret, t')) \<Rightarrow>
           ret \<and> internal_array_at t' (root_page_id t') = [(0, 1), (2, 2)]
           \<and> leaf_array_at t' 1 = [(1, 10), (2, 20)]
           \<and> leaf_array_at t' 2 = [(3, 30), (4, 40), (5, 50)]
           \<and> fst (internal_array_at t' (root_page_id t') ! 1) \<noteq> fst (hd (leaf_array_at t' 2))
       | _ \<Rightarrow> False)"
  by (simp add: Split_leaf_def NewPage_def Let_def Leaf_Init_def
        Leaf_KeyAt_def GetSize_def IsLeafPage_def ex_tree_def ex_leaf_def INVALID_PAGE_ID_def
        leaf_array_at_def internal_array_at_def blank_page_def BPT_Insert_def IsEmpty_def
        InsertIntoLeaf_def FindLeafPage_def descend.simps Leaf_Insert_def
        InsertIntoParent.simps Internal_PopulateNewRoot_def Internal_Init_def
        UpdateRootPageId_def size_t_to_int_def)

text \<open>
  Claim C4.  On the root page \<open>AdjustRoot\<close> does one of three things.  If the root is an
  internal page of size 1 whose only child is in the pool, that child becomes the root, its
  parent pointer is set to INVALID, no other page changes, and the result is true.  If the
  root is a leaf of size 0, the root page id becomes INVALID, so that the tree is empty,
  with the pages left as they are and the result true.  In every other case, a root leaf
  that still holds an entry or an internal root of another size, the tree is unchanged and
  the result is false.
\<close>

theorem AdjustRoot_cases:
  assumes "pages t r = Some p" and "IsRootPage p"
  shows "(\<not> IsLeafPage p \<and> GetSize p = 1 \<longrightarrow>
            (\<forall>nr. pages t (snd (internal_array p ! 0)) = Some nr \<longrightarrow>
               (\<exists>t'. AdjustRoot t r = Inr (True, t')
                  \<and> root_page_id t' = snd (internal_array p ! 0)
                  \<and> pages t' (root_page_id t') = Some (nr\<lparr>parent_page_id := INVALID_PAGE_ID\<rparr>)
                  \<and> (\<forall>q. q \<noteq> root_page_id t' \<longrightarrow> pages t' q = pages t q))))
       \<and> (IsLeafPage p \<and> GetSize p = 0 \<longrightarrow>
            (\<exists>t'. AdjustRoot t r = Inr (True, t') \<and> root_page_id t' = INVALID_PAGE_ID
                  \<and> IsEmpty t' \<and> pages t' = pages t))
       \<and> (IsLeafPage p \<and> GetSize p \<noteq> 0 \<longrightarrow> AdjustRoot t r = Inr (False, t))
       \<and> (\<not> IsLeafPage p \<and> GetSize p \<noteq> 1 \<longrightarrow> AdjustRoot t r = Inr (False, t))"
  using assms
  by (auto simp: AdjustRoot_def GetMinSize_def UpdateRootPageId_def IsEmpty_def Let_def)

theorem AdjustRoot_cases_witness:
  "pages ex_tree2 3 \<noteq> None \<and> IsRootPage (the (pages ex_tree2 3))
   \<and> AdjustRoot ex_tree2 3 = Inr (False, ex_tree2)
   \<and> pages (ex_tree [(1, 10)]) 1 = Some (ex_leaf [(1, 10)])
   \<and> IsRootPage (ex_leaf [(1, 10)]) \<and> IsLeafPage (ex_leaf [(1, 10)])
   \<and> GetSize (ex_leaf [(1, 10)]) = 1
   \<and> AdjustRoot (ex_tree [(1, 10)]) 1 = Inr (False, ex_tree [(1, 10)])
   \<and> AdjustRoot (ex_tree []) 1
        = Inr (True, \<lparr>root_page_id = - 1, pages = (\<lambda>pid. None)(1 := Some (ex_leaf [])),
             next_free_page = 2, header_record = Some (- 1), leaf_max_size = 4,
             internal_slots = 5, blank_key = 0\<rparr>)
   \<and> (case AdjustRoot ex_tree_single 3 of
         Inl e \<Rightarrow> False
       | Inr (ret, t') \<Rightarrow> ret \<and> root_page_id t' = 1 \<and> header_record t' = Some 1
           \<and> map_option parent_page_id (pages t' 1) = Some INVALID_PAGE_ID
           \<and> pages t' 2 = pages ex_tree_single 2 \<and> pages t' 3 = pages ex_tree_single 3)"
proof -
  have p: "pages ex_tree2 3 = Some (the (pages ex_tree2 3))" by (simp add: ex_tree2_def)
  have r: "IsRootPage (the (pages ex_tree2 3))"
    by (simp add: ex_tree2_def IsRootPage_def INVALID_PAGE_ID_def)
  have "\<not> IsLeafPage (the (pages ex_tree2 3)) \<and> GetSize (the (pages ex_tree2 3)) \<noteq> 1"
    by (simp add: ex_tree2_def IsLeafPage_def GetSize_def)
  then have a: "AdjustRoot ex_tree2 3 = Inr (False, ex_tree2)"
    using AdjustRoot_cases[OF p r] by blast
  have p1: "pages (ex_tree [(1, 10)]) 1 = Some (ex_leaf [(1, 10)])" by (simp add: ex_tree_def)
  have r1: "IsRootPage (ex_leaf [(1, 10)])"
    by (simp add: ex_leaf_def IsRootPage_def INVALID_PAGE_ID_def)
  have l1: "IsLeafPage (ex_leaf [(1, 10)])" "GetSize (ex_leaf [(1, 10)]) = 1"
    by (simp_all add: ex_leaf_def IsLeafPage_def GetSize_def)
  then have b: "AdjustRoot (ex_tree [(1, 10)]) 1 = Inr (False, ex_tree [(1, 10)])"
    using AdjustRoot_cases[OF p1 r1] by simp
  have c: "AdjustRoot (ex_tree []) 1
        = Inr (True, \<lparr>root_page_id = - 1, pages = (\<lambda>pid. None)(1 := Some (ex_leaf [])),
             next_free_page = 2, header_record = Some (- 1), leaf_max_size = 4,
             internal_slots = 5, blank_key = 0\<rparr>)"
    by (simp add: AdjustRoot_def ex_tree_def ex_leaf_def IsRootPage_def IsLeafPage_def GetSize_def
        GetMinSize_def UpdateRootPageId_def INVALID_PAGE_ID_def)
  have d: "case AdjustRoot ex_tree_single 3 of
         Inl e \<Rightarrow> False
       | Inr (ret, t') \<Rightarrow> ret \<and> root_page_id t' = 1 \<and> header_record t' = Some 1
           \<and> map_option parent_page_id (pages t' 1) = Some INVALID_PAGE_ID
           \<and> pages t' 2 = pages ex_tree_single 2 \<and> pages t' 3 = pages ex_tree_single 3"
    by (simp add: AdjustRoot_def ex_tree_single_def ex_tree2_def IsRootPage_def IsLeafPage_def
        GetSize_def UpdateRootPageId_def INVALID_PAGE_ID_def)
  have e: "pages ex_tree2 3 \<noteq> None" by (simp add: ex_tree2_def)
  show ?thesis using a b c d e r p1 r1 l1 by blast
qed

section \<open>Log recovery: the Redo pass\<close>

lemma track_txn_pages [simp]: "bp_pages (track_txn r st) = bp_pages st"
  by (simp add: track_txn_def)

lemma redo_record_pages:
  "bp_pages st' = bp_pages st \<Longrightarrow> redo_record r st' = None \<longleftrightarrow> redo_record r st = None"
  by (simp add: redo_record_def Let_def)

text \<open>
  Once the loop meets a record that it skips, it meets the same record again: \<open>continue\<close>
  jumps over the statements that advance \<open>data\<close> and \<open>size\<close>, and nothing in the loop
  body changes the page LSN.  The loop then never returns.
\<close>

lemma Redo_scan_stuck:
  assumes sz: "sz > 0" and d: "DeserializeLogRecord log_buffer data sz = Some r"
    and skip: "redo_record r (track_txn r st) = None"
  shows "Redo_scan log_buffer st data sz fetchCnt = None"
proof (rule ccontr)
  assume "Redo_scan log_buffer st data sz fetchCnt \<noteq> None"
  then obtain y where y: "Redo_scan log_buffer st data sz fetchCnt = Some y" by blast
  have "\<not> (b = log_buffer \<and> d' = data \<and> s' = sz \<and> bp_pages st' = bp_pages st)"
    if "Redo_scan b st' d' s' c' = Some y'" for b st' d' s' c' y'
  proof (rule Redo_scan.raw_induct[where P = "\<lambda>b st' d' s' c' y'.
      \<not> (b = log_buffer \<and> d' = data \<and> s' = sz \<and> bp_pages st' = bp_pages st)", OF _ that])
    fix loop :: "(int \<Rightarrow> 'a LogRecord) \<Rightarrow> 'a LogRecovery \<Rightarrow> int \<Rightarrow> int \<Rightarrow> int \<Rightarrow> 'a scan_result option"
    fix b st' d' s' c' y'
    assume IH: "\<And>b st' d' s' c' y'. loop b st' d' s' c' = Some y' \<Longrightarrow>
        \<not> (b = log_buffer \<and> d' = data \<and> s' = sz \<and> bp_pages st' = bp_pages st)"
    assume body: "(if s' > 0
      then (case DeserializeLogRecord b d' s' of
              None \<Rightarrow> Some (Returned (st'\<lparr>ENABLE_LOGGING := True\<rparr>))
            | Some record \<Rightarrow>
                (case redo_record record (track_txn record st') of
                   None \<Rightarrow> loop b (track_txn record st') d' s' c'
                 | Some st'' \<Rightarrow>
                     loop b
                       (st''\<lparr>lsn_mapping := (lsn_mapping st'')
                              (lr_lsn record := Some (d' + c' * LOG_BUFFER_SIZE st''))\<rparr>)
                       (d' + lr_size record) (s' - lr_size record) (c' + 1)))
      else Some (Scanned st' c')) = Some y'"
    show "\<not> (b = log_buffer \<and> d' = data \<and> s' = sz \<and> bp_pages st' = bp_pages st)"
    proof
      assume a: "b = log_buffer \<and> d' = data \<and> s' = sz \<and> bp_pages st' = bp_pages st"
      have "redo_record r (track_txn r st') = None"
        using skip a redo_record_pages[of "track_txn r st'" "track_txn r st" r] by simp
      then have "loop log_buffer (track_txn r st') data sz c' = Some y'"
        using body a sz d by simp
      from IH[OF this] show False using a by simp
    qed
  qed
  from this[OF y] show False by simp
qed

text \<open>
  Claim C1 asks that \<open>Redo\<close> terminates on every finite log and moves on to the next
  record after one that it skips.  On the log BEGIN, INSERT, COMMIT of transaction 1,
  with the inserted-into page already carrying the LSN of the INSERT record, \<open>Redo\<close>
  reads the BEGIN record, skips the INSERT record, and never returns.
\<close>

theorem Redo_never_returns:
  "Redo ex_recovery = None"
proof -
  define st where "st = ex_recovery\<lparr>ENABLE_LOGGING := False\<rparr>"
  define buf where "buf = log_view ex_recovery"
  define begin_rec where "begin_rec = ex_record 20 0 (- 1) BEGIN"
  define insert_rec where "insert_rec = ex_record 40 1 0 INSERT"
  define st1 where "st1 = track_txn begin_rec st"
  define st2 where "st2 = st1\<lparr>lsn_mapping := (lsn_mapping st1)(0 := Some 0)\<rparr>"
  have off: "offset_field st = 0" "log_size st = 80"
    by (simp_all add: st_def ex_recovery_def)
  have lv: "log_view st = buf"
    by (simp add: st_def buf_def)
  have rl: "ReadLog st (offset_field st) = Some buf"
    by (simp add: ReadLog_def off lv)
  have lbs: "LOG_BUFFER_SIZE st = 128" "LOG_BUFFER_SIZE st1 = 128"
    by (simp_all add: st_def st1_def ex_recovery_def track_txn_def)
  have b0: "buf 0 = begin_rec" and b20: "buf 20 = insert_rec"
    by (simp_all add: buf_def ex_recovery_def begin_rec_def insert_rec_def)
  have f0: "lr_size begin_rec = 20" "lr_lsn begin_rec = 0" "log_record_type begin_rec = BEGIN"
    by (simp_all add: begin_rec_def ex_record_def)
  have f1: "lr_size insert_rec = 40" "lr_lsn insert_rec = 1" "log_record_type insert_rec = INSERT"
    "rid_page_id (insert_rid insert_rec) = 2"
    by (simp_all add: insert_rec_def ex_record_def)
  have d0: "DeserializeLogRecord buf 0 128 = Some begin_rec"
    by (simp add: DeserializeLogRecord_def b0 f0)
  have r0: "redo_record begin_rec st1 = Some st1"
    by (simp add: redo_record_def f0)
  have step: "Redo_scan buf st 0 128 0 = Redo_scan buf st2 20 108 1"
    by (subst Redo_scan.simps) (simp add: d0 r0 f0 lbs st1_def[symmetric] st2_def)
  have d1: "DeserializeLogRecord buf 20 108 = Some insert_rec"
    by (simp add: DeserializeLogRecord_def b20 f1)
  have pg: "page_lsn (bp_pages st2 2) = 1"
    by (simp add: st2_def st1_def st_def ex_recovery_def)
  have skip: "redo_record insert_rec (track_txn insert_rec st2) = None"
    by (simp add: redo_record_def f1 pg)
  have "Redo_scan buf st2 20 108 1 = None"
    by (rule Redo_scan_stuck[OF _ d1 skip]) simp
  then have "Redo_scan buf st 0 128 0 = None" using step by simp
  then have "Redo_buffers st 0 = None"
    by (subst Redo_buffers.simps) (simp add: rl lbs)
  then show ?thesis by (simp add: Redo_def st_def)
qed

text \<open>
  With the page LSN below that of the INSERT record nothing is skipped: the scan applies
  the insertion, sees the COMMIT, and returns at the zero bytes behind the last record.
\<close>

lemma Redo_returns_when_applied:
  "(case Redo (ex_recovery\<lparr>bp_pages := (bp_pages ex_recovery)(2 := \<lparr>page_lsn = 0, applied = []\<rparr>)\<rparr>) of
      None \<Rightarrow> False
    | Some st' \<Rightarrow>
        applied (bp_pages st' 2) = [TP_InsertTuple 42 \<lparr>rid_page_id = 2, rid_slot_num = 0\<rparr>]
        \<and> active_txn st' 1 = None \<and> ENABLE_LOGGING st'
        \<and> lsn_mapping st' 1 = Some 148)"
  by (simp add: Redo_def Redo_buffers.simps Redo_scan.simps ReadLog_def DeserializeLogRecord_def
      redo_record_def track_txn_def apply_op_def ex_recovery_def ex_record_def Let_def)

end
